theory Spec2Isabelle
  imports Main "HOL-Library.Word"
begin

unbundle bit_operations_syntax

section \<open>The bridge between a TCP client and a USB fastboot device\<close>

text \<open>
  The development embeds \<^verbatim>\<open>main.go\<close>. Calls into the USB library, the socket and the
  clock are the program's effects: every function of the model returns the list of the
  calls it made, in order, next to its result, and takes the answers of the outside world
  from an explicit state (the pending deliveries of the connection, the outcomes of its
  coming writes, the devices on the bus, the answers of the coming bulk transfers).
  Descriptor queries read the data of an enumerated device and logging prints; neither
  leaves an event.
\<close>

subsection \<open>Errors and events\<close>

type_synonym byte = "8 word"
type_synonym handle = nat

datatype error =
    NoDeviceFound
  | MultipleDevices
  | OpenDeviceFailed
  | ClaimInterfaceFailed
  | ReadHandshakeFailed
  | ReadHeaderFailed
  | ReadPacketFailed
  | WriteHeaderFailed
  | WritePacketFailed
  | UsbWriteFailed
  | UsbReadFailed
  | PanicIndexOutOfRange
  | PanicDivideByZero
  | PanicSliceBounds
  | PanicNilDereference
  | PanicMakeSlice

fun is_panic :: "error \<Rightarrow> bool" where
  "is_panic PanicIndexOutOfRange = True"
| "is_panic PanicDivideByZero = True"
| "is_panic PanicSliceBounds = True"
| "is_panic PanicNilDereference = True"
| "is_panic PanicMakeSlice = True"
| "is_panic _ = False"

datatype event =
    Accept
  | ConnRead nat
  | ConnWrite "byte list"
  | ConnClose
  | Sleep nat
  | UsbDeviceList
  | UsbOpen nat
  | UsbStringDescriptor handle byte
  | UsbClaim handle nat
  | UsbRelease handle nat
  | UsbHandleClose handle
  | UsbBulk handle byte "byte list" nat nat

text \<open>
  \<open>ConnRead n\<close> is a \<open>Read\<close> of the connection into a buffer of \<open>n\<close> bytes,
  \<open>ConnWrite p\<close> a \<open>Write\<close> of the bytes \<open>p\<close>, \<open>Sleep n\<close> a pause of \<open>n\<close>
  milliseconds, \<open>UsbOpen d\<close> the opening of the device with identifier \<open>d\<close>, and
  \<open>UsbBulk h a p n t\<close> a bulk transfer on the handle \<open>h\<close> and the endpoint address
  \<open>a\<close> with the buffer \<open>p\<close>, the length \<open>n\<close> and the timeout \<open>t\<close>.
\<close>

definition usbTimeout :: nat where
  "usbTimeout = 5000"

subsection \<open>Descriptors and devices\<close>

datatype transfer_type =
  ControlTransfer | IsochronousTransfer | BulkTransfer | InterruptTransfer

text \<open>
  An endpoint descriptor as the USB library presents it. \<open>TransferType\<close> and
  \<open>Direction\<close> hold what the library's methods of these names return.
\<close>

record endpoint =
  TransferType :: transfer_type
  Direction :: nat
  EndpointAddress :: byte
  MaxPacketSize :: "16 word"

record interfaceDescriptor =
  InterfaceClass :: byte
  InterfaceSubClass :: byte
  InterfaceProtocol :: byte
  EndpointDescriptors :: "endpoint list"

record supportedInterface =
  InterfaceDescriptors :: "interfaceDescriptor list"

record configDescriptor =
  NumInterfaces :: nat
  SupportedInterfaces :: "supportedInterface list"

text \<open>
  A device of the list, with the answers the library gives for it during one call of
  \<open>usbDeviceOpen\<close>: the active configuration (\<open>None\<close> when the query fails), the
  serial number index of its device descriptor, the result of \<open>Open\<close> inside the scan
  (\<open>None\<close> when it fails), the string read from that handle, the result of the final
  \<open>Open\<close>, and whether \<open>ClaimInterface(0)\<close> on the final handle succeeds.
\<close>

record device =
  deviceId :: nat
  ActiveConfigDescriptor :: "configDescriptor option"
  SerialNumberIndex :: byte
  scanOpen :: "handle option"
  StringDescriptorASCII :: string
  finalOpen :: "handle option"
  claimOk :: bool

text \<open>The struct \<open>usbDevice\<close>; a nil pointer is \<open>None\<close>.\<close>

record usbDevice =
  endpointIn :: "endpoint option"
  endpointOut :: "endpoint option"
  device :: "device option"
  handle :: "handle option"

text \<open>
  The USB side of the world during one session: the devices \<open>DeviceList\<close> reports and
  the answers of the coming bulk transfers, each the bytes moved and whether the call
  returns an error. A transfer beyond the listed answers fails.
\<close>

record usb =
  u_devices :: "device list"
  u_bulk :: "(byte list \<times> bool) list"

definition BulkTransfer_call :: "usb \<Rightarrow> (byte list \<times> bool) \<times> usb" where
  "BulkTransfer_call u =
     (case u_bulk u of
        [] \<Rightarrow> (([], True), u)
      | a # as \<Rightarrow> (a, u\<lparr>u_bulk := as\<rparr>))"

subsection \<open>usbWrite and usbRead\<close>

text \<open>Go's integer division truncates towards zero.\<close>

definition go_div :: "int \<Rightarrow> int \<Rightarrow> int" where
  "go_div a b = sgn a * sgn b * (\<bar>a\<bar> div \<bar>b\<bar>)"

text \<open>
  The loop of \<open>usbWrite\<close>, by the number of iterations left. The slice expression
  \<open>data[offset:offset+size]\<close> panics when its bounds are out of order or beyond the
  slice; a nil handle panics when the transfer is called on it.
\<close>

fun usbWrite_loop ::
  "nat \<Rightarrow> handle option \<Rightarrow> endpoint \<Rightarrow> byte list \<Rightarrow> int \<Rightarrow> usb
     \<Rightarrow> event list \<times> usb \<times> (error + unit)" where
  "usbWrite_loop 0 h ep data offset u = ([], u, Inr ())"
| "usbWrite_loop (Suc k) h ep data offset u =
     (let mps = int (unat (MaxPacketSize ep));
          size0 = int (length data) - offset;
          size = (if size0 > mps then mps else size0)
      in if offset < 0 \<or> size < 0 \<or> offset + size > int (length data)
         then ([], u, Inl PanicSliceBounds)
         else (case h of
                 None \<Rightarrow> ([], u, Inl PanicNilDereference)
               | Some hnd \<Rightarrow>
                   (let chunk = take (nat size) (drop (nat offset) data);
                        ev = UsbBulk hnd (EndpointAddress ep) chunk (nat size) usbTimeout;
                        (ans, u') = BulkTransfer_call u
                    in if snd ans then ([ev], u', Inl UsbWriteFailed)
                       else (case usbWrite_loop k h ep data (offset + size) u' of
                               (evs, u'', r) \<Rightarrow> (ev # evs, u'', r)))))"

definition usbWrite :: "usbDevice \<Rightarrow> byte list \<Rightarrow> usb \<Rightarrow> event list \<times> usb \<times> (error + unit)" where
  "usbWrite dev data u =
     (case endpointOut dev of
        None \<Rightarrow> ([], u, Inl PanicNilDereference)
      | Some ep \<Rightarrow>
          (let mps = int (unat (MaxPacketSize ep))
           in if mps = 0 then ([], u, Inl PanicDivideByZero)
              else usbWrite_loop (nat (go_div (int (length data) + mps - 1) mps))
                     (handle dev) ep data 0 u))"

text \<open>
  \<open>usbRead\<close> returns the count the library reports and the buffer as the transfer left
  it: the received bytes in front, the old content behind.
\<close>

definition usbRead ::
  "usbDevice \<Rightarrow> byte list \<Rightarrow> usb \<Rightarrow> event list \<times> usb \<times> byte list \<times> (error + nat)" where
  "usbRead dev data u =
     (case endpointIn dev of
        None \<Rightarrow> ([], u, data, Inl PanicNilDereference)
      | Some ep \<Rightarrow>
          (case handle dev of
             None \<Rightarrow> ([], u, data, Inl PanicNilDereference)
           | Some h \<Rightarrow>
               (let ev = UsbBulk h (EndpointAddress ep) data (length data) usbTimeout;
                    (ans, u') = BulkTransfer_call u;
                    data' = take (length data) (fst ans @ drop (length (fst ans)) data)
                in if snd ans then ([ev], u', data', Inl UsbReadFailed)
                   else ([ev], u', data', Inr (length (fst ans))))))"

subsection \<open>usbDeviceOpen and usbDeviceClose\<close>

text \<open>
  The inner loop over the endpoint descriptors: \<open>in\<close> and \<open>out\<close> start at \<open>-1\<close> and
  end as the index of the last bulk endpoint of each direction.
\<close>

fun endpoint_loop :: "endpoint list \<Rightarrow> nat \<Rightarrow> int \<times> int \<Rightarrow> int \<times> int" where
  "endpoint_loop [] i (inn, out) = (inn, out)"
| "endpoint_loop (e # es) i (inn, out) =
     (if TransferType e \<noteq> BulkTransfer then endpoint_loop es (Suc i) (inn, out)
      else if Direction e = 1 then endpoint_loop es (Suc i) (int i, out)
      else endpoint_loop es (Suc i) (inn, int i))"

text \<open>
  The variables of the scan: \<open>dev\<close>, \<open>deviceCount\<close>, the handles whose \<open>Close\<close> is
  deferred (the latest first), and the calls made so far.
\<close>

record scan_state =
  s_dev :: usbDevice
  s_count :: nat
  s_deferred :: "handle list"
  s_events :: "event list"

definition matched :: "device \<Rightarrow> endpoint list \<Rightarrow> int \<Rightarrow> int \<Rightarrow> scan_state \<Rightarrow> scan_state" where
  "matched d eps inn out st =
     st\<lparr>s_dev := (s_dev st)\<lparr>endpointIn := Some (eps ! nat inn),
                            endpointOut := Some (eps ! nat out),
                            device := Some d\<rparr>,
        s_count := s_count st + 1\<rparr>"

text \<open>
  One iteration of the loop over the devices; \<open>Inr\<close> is the state at the end of the
  iteration (after a \<open>continue\<close> as well), \<open>Inl\<close> a panic of an index expression.
\<close>

definition scan_device :: "string \<Rightarrow> device \<Rightarrow> scan_state \<Rightarrow> error + scan_state" where
  "scan_device serial d st =
     (case ActiveConfigDescriptor d of
        None \<Rightarrow> Inr st
      | Some configDescriptor \<Rightarrow>
          if NumInterfaces configDescriptor > 1 then Inr st
          else (case SupportedInterfaces configDescriptor of
                  [] \<Rightarrow> Inl PanicIndexOutOfRange
                | si # _ \<Rightarrow>
                    (case InterfaceDescriptors si of
                       [] \<Rightarrow> Inl PanicIndexOutOfRange
                     | ifaceDescriptor # _ \<Rightarrow>
                         if InterfaceClass ifaceDescriptor \<noteq> 0xff \<or>
                            InterfaceSubClass ifaceDescriptor \<noteq> 0x42 \<or>
                            InterfaceProtocol ifaceDescriptor \<noteq> 0x03
                         then Inr st
                         else (case endpoint_loop (EndpointDescriptors ifaceDescriptor) 0 (- 1, - 1) of
                                 (inn, out) \<Rightarrow>
                                   if inn < 0 \<or> out < 0 then Inr st
                                   else if serial \<noteq> []
                                   then (case scanOpen d of
                                           None \<Rightarrow> Inr (st\<lparr>s_events := s_events st @ [UsbOpen (deviceId d)]\<rparr>)
                                         | Some h \<Rightarrow>
                                             (let st1 = st\<lparr>s_events := s_events st @
                                                            [UsbOpen (deviceId d),
                                                             UsbStringDescriptor h (SerialNumberIndex d)],
                                                          s_deferred := h # s_deferred st\<rparr>
                                              in if StringDescriptorASCII d \<noteq> serial then Inr st1
                                                 else Inr (matched d (EndpointDescriptors ifaceDescriptor) inn out st1)))
                                   else Inr (matched d (EndpointDescriptors ifaceDescriptor) inn out st)))))"

fun scan_loop :: "string \<Rightarrow> device list \<Rightarrow> scan_state \<Rightarrow> scan_state \<times> error option" where
  "scan_loop serial [] st = (st, None)"
| "scan_loop serial (d # ds) st =
     (case scan_device serial d st of
        Inl e \<Rightarrow> (st, Some e)
      | Inr st' \<Rightarrow> scan_loop serial ds st')"

definition scan_init :: scan_state where
  "scan_init =
     \<lparr>s_dev = \<lparr>endpointIn = None, endpointOut = None, device = None, handle = None\<rparr>,
      s_count = 0, s_deferred = [], s_events = [UsbDeviceList]\<rparr>"

text \<open>
  \<open>usbDeviceOpen\<close> on the devices that \<open>DeviceList\<close> reports. The deferred \<open>Close\<close>
  calls run when the function returns or panics, the latest first.
\<close>

definition usbDeviceOpen :: "string \<Rightarrow> device list \<Rightarrow> event list \<times> (error + usbDevice)" where
  "usbDeviceOpen serial devices =
     (case scan_loop serial devices scan_init of
        (st, p) \<Rightarrow>
          (let closes = map UsbHandleClose (s_deferred st)
           in case p of
                Some e \<Rightarrow> (s_events st @ closes, Inl e)
              | None \<Rightarrow>
                  if s_count st = 0 then (s_events st @ closes, Inl NoDeviceFound)
                  else if s_count st > 1 then (s_events st @ closes, Inl MultipleDevices)
                  else (case device (s_dev st) of
                          None \<Rightarrow> (s_events st @ closes, Inl PanicNilDereference)
                        | Some d \<Rightarrow>
                            (case finalOpen d of
                               None \<Rightarrow>
                                 (s_events st @ [UsbOpen (deviceId d)] @ closes, Inl OpenDeviceFailed)
                             | Some h \<Rightarrow>
                                 if claimOk d
                                 then (s_events st @ [UsbOpen (deviceId d), UsbClaim h 0] @ closes,
                                       Inr ((s_dev st)\<lparr>handle := Some h\<rparr>))
                                 else (s_events st @
                                         [UsbOpen (deviceId d), UsbClaim h 0, UsbHandleClose h] @ closes,
                                       Inl ClaimInterfaceFailed)))))"

definition usbDeviceClose :: "usbDevice \<Rightarrow> event list \<times> error option" where
  "usbDeviceClose dev =
     (case handle dev of
        None \<Rightarrow> ([], Some PanicNilDereference)
      | Some h \<Rightarrow> ([UsbRelease h 0, UsbHandleClose h], None))"

subsection \<open>The connection\<close>

text \<open>
  The network side of the world during one session: the pieces in which the coming
  \<open>Read\<close> calls find the client's bytes (after the last piece the stream is at its
  end), the outcomes of the coming \<open>Write\<close> calls (\<open>None\<close>: the whole buffer is
  written and the error is nil; \<open>Some k\<close>: an error after \<open>k\<close> bytes; a call beyond
  the listed outcomes fails with nothing written), and the bytes written so far.
\<close>

record conn =
  c_in :: "byte list list"
  c_wr :: "nat option list"
  c_out :: "byte list"

text \<open>\<open>conn.Read\<close> into a buffer of the given capacity: \<open>None\<close> is the end of the stream.\<close>

definition conn_Read :: "nat \<Rightarrow> conn \<Rightarrow> byte list option \<times> conn" where
  "conn_Read cap c =
     (case c_in c of
        [] \<Rightarrow> (None, c)
      | ch # rest \<Rightarrow>
          (Some (take cap ch),
           c\<lparr>c_in := (if length ch \<le> cap then rest else drop cap ch # rest)\<rparr>))"

text \<open>\<open>conn.Write\<close>: the count written and whether the error is non-nil.\<close>

definition conn_Write :: "byte list \<Rightarrow> conn \<Rightarrow> (nat \<times> bool) \<times> conn" where
  "conn_Write p c =
     (case c_wr c of
        [] \<Rightarrow> ((0, True), c)
      | None # os \<Rightarrow> ((length p, False), c\<lparr>c_wr := os, c_out := c_out c @ p\<rparr>)
      | Some k # os \<Rightarrow> ((min k (length p), True), c\<lparr>c_wr := os, c_out := c_out c @ take k p\<rparr>))"

subsection \<open>The buffered reader and io.ReadFull\<close>

definition defaultBufSize :: nat where
  "defaultBufSize = 4096"

text \<open>
  \<open>Read\<close> of a \<open>bufio.Reader\<close> over the connection, for a destination of \<open>n\<close> bytes.
  The reader's state is the list of bytes it holds unread. With an empty buffer a
  destination of at least the buffer's size is filled from the connection directly;
  otherwise the reader fills its own buffer with one \<open>Read\<close> of the connection and
  copies from it. The result is the bytes copied and whether the error is non-nil.
\<close>

definition bufio_Read ::
  "nat \<Rightarrow> byte list \<Rightarrow> conn \<Rightarrow> event list \<times> (byte list \<times> bool) \<times> byte list \<times> conn" where
  "bufio_Read n buf c =
     (if n = 0 then ([], ([], False), buf, c)
      else if buf = [] then
        (if n \<ge> defaultBufSize then
           (case conn_Read n c of
              (None, c') \<Rightarrow> ([ConnRead n], ([], True), [], c')
            | (Some bs, c') \<Rightarrow> ([ConnRead n], (bs, False), [], c'))
         else
           (case conn_Read defaultBufSize c of
              (None, c') \<Rightarrow> ([ConnRead defaultBufSize], ([], True), [], c')
            | (Some bs, c') \<Rightarrow>
                ([ConnRead defaultBufSize], (take n bs, False), drop n bs, c')))
      else ([], (take n buf, False), drop n buf, c))"

lemma bufio_Read_progress:
  assumes "bufio_Read m buf c = (evs, (bs, False), buf', c')" "m \<noteq> 0"
  shows "m - length bs + length (c_in c') < m + length (c_in c)"
  using assms
  by (auto simp: bufio_Read_def conn_Read_def min_def split: if_splits list.splits)

text \<open>
  The loop of \<open>io.ReadAtLeast\<close> as \<open>io.ReadFull\<close> calls it: \<open>m\<close> bytes are still
  wanted, \<open>acc\<close> holds the bytes read so far. It ends when nothing is wanted or a read
  returns an error; the error is dropped when the last read completed the buffer.
\<close>

function ReadFull_loop ::
  "nat \<Rightarrow> byte list \<Rightarrow> byte list \<Rightarrow> conn \<Rightarrow> event list \<times> (byte list \<times> bool) \<times> byte list \<times> conn" where
  "ReadFull_loop m acc buf c =
     (if m = 0 then ([], (acc, False), buf, c)
      else (case bufio_Read m buf c of
              (evs, (bs, err), buf', c') \<Rightarrow>
                if err then (evs, (acc @ bs, length bs < m), buf', c')
                else (case ReadFull_loop (m - length bs) (acc @ bs) buf' c' of
                        (evs2, r, buf2, c2) \<Rightarrow> (evs @ evs2, r, buf2, c2))))"
  by pat_completeness auto
termination
  by (relation "measure (\<lambda>(m, acc, buf, c). m + length (c_in c))")
     (auto dest: bufio_Read_progress [OF sym])

definition ReadFull ::
  "nat \<Rightarrow> byte list \<Rightarrow> conn \<Rightarrow> event list \<times> (byte list \<times> bool) \<times> byte list \<times> conn" where
  "ReadFull m buf c = ReadFull_loop m [] buf c"

subsection \<open>Handshake and frames\<close>

text \<open>The literal \<open>FB01\<close>.\<close>

definition FB01 :: "byte list" where
  "FB01 = [0x46, 0x42, 0x30, 0x31]"

text \<open>
  Each of \<open>netReadHandshake\<close> and \<open>netRead\<close> makes a new buffered reader, whose buffer
  is empty, and drops it with whatever it holds when the function returns.
\<close>

definition netReadHandshake :: "conn \<Rightarrow> event list \<times> conn \<times> (error + unit)" where
  "netReadHandshake c =
     (case ReadFull 4 [] c of
        (evs, (header, err), buf, c') \<Rightarrow>
          if length header \<noteq> 4 \<or> header \<noteq> FB01 then (evs, c', Inl ReadHandshakeFailed)
          else (evs, c', Inr ()))"

definition netWriteHandshake :: "conn \<Rightarrow> event list \<times> conn \<times> bool" where
  "netWriteHandshake c =
     (case conn_Write FB01 c of
        ((n, err), c') \<Rightarrow> ([ConnWrite FB01], c', err))"

definition BigEndian_Uint64 :: "byte list \<Rightarrow> 64 word" where
  "BigEndian_Uint64 b =
     ucast (b ! 7) OR push_bit 8 (ucast (b ! 6)) OR push_bit 16 (ucast (b ! 5)) OR
     push_bit 24 (ucast (b ! 4)) OR push_bit 32 (ucast (b ! 3)) OR push_bit 40 (ucast (b ! 2)) OR
     push_bit 48 (ucast (b ! 1)) OR push_bit 56 (ucast (b ! 0))"

definition BigEndian_PutUint64 :: "64 word \<Rightarrow> byte list" where
  "BigEndian_PutUint64 v =
     [ucast (drop_bit 56 v), ucast (drop_bit 48 v), ucast (drop_bit 40 v), ucast (drop_bit 32 v),
      ucast (drop_bit 24 v), ucast (drop_bit 16 v), ucast (drop_bit 8 v), ucast v]"

text \<open>
  \<open>netRead\<close>. \<open>mem\<close> is the largest byte slice the runtime can make at that moment: a
  length beyond it ends the process in \<open>make\<close>. The header is decoded only when all its
  8 bytes were read.
\<close>

definition netRead :: "nat \<Rightarrow> conn \<Rightarrow> event list \<times> conn \<times> (error + byte list)" where
  "netRead mem c =
     (case ReadFull 8 [] c of
        (evs, (header, err), buf, c1) \<Rightarrow>
          if length header \<noteq> 8 then (evs, c1, Inl ReadHeaderFailed)
          else (let size = unat (BigEndian_Uint64 header)
                in if size > mem then (evs, c1, Inl PanicMakeSlice)
                   else (case ReadFull size buf c1 of
                           (evs2, (data, err2), buf2, c2) \<Rightarrow>
                             if err2 then (evs @ evs2, c2, Inl ReadPacketFailed)
                             else (evs @ evs2, c2, Inr data))))"

definition netWrite :: "conn \<Rightarrow> byte list \<Rightarrow> event list \<times> conn \<times> (error + unit)" where
  "netWrite c data =
     (let header = BigEndian_PutUint64 (word_of_nat (length data))
      in case conn_Write header c of
           ((n1, err1), c1) \<Rightarrow>
             if err1 then ([ConnWrite header], c1, Inl WriteHeaderFailed)
             else (case conn_Write data c1 of
                     ((n2, err2), c2) \<Rightarrow>
                       if err2 \<or> n2 \<noteq> length data
                       then ([ConnWrite header, ConnWrite data], c2, Inl WritePacketFailed)
                       else ([ConnWrite header, ConnWrite data], c2, Inr ())))"

subsection \<open>The bridge loop\<close>

definition pending :: "conn \<Rightarrow> nat" where
  "pending c = length (concat (c_in c))"

lemma bufio_Read_pending:
  "bufio_Read m buf c = (evs, (bs, err), buf', c') \<Longrightarrow>
   pending c' + length buf' + length bs = pending c + length buf"
  by (auto simp: bufio_Read_def conn_Read_def pending_def min_def
           split: if_splits list.splits)

lemma ReadFull_loop_pending:
  "ReadFull_loop m acc buf c = (evs, (bs, err), buf', c') \<Longrightarrow>
   pending c' + length buf' + length bs = pending c + length buf + length acc"
proof (induction m acc buf c arbitrary: evs bs err buf' c' rule: ReadFull_loop.induct)
  case (1 m acc buf c)
  show ?case
  proof (cases "m = 0")
    case True
    then show ?thesis using 1(2) by simp
  next
    case False
    obtain e1 b1 r1 f1 d1 where br: "bufio_Read m buf c = (e1, (b1, r1), f1, d1)"
      by (metis prod_cases4 surj_pair)
    note pb = bufio_Read_pending [OF br]
    show ?thesis
    proof (cases r1)
      case True
      then show ?thesis using 1(2) False br pb by auto
    next
      case F: False
      obtain e2 r2 f2 d2 where rec: "ReadFull_loop (m - length b1) (acc @ b1) f1 d1 = (e2, r2, f2, d2)"
        by (metis prod_cases4)
      have "r2 = (bs, err)" "f2 = buf'" "d2 = c'"
        using 1(2) False br F rec by auto
      then have "pending c' + length buf' + length bs = pending d1 + length f1 + length (acc @ b1)"
        using 1(1) [OF False br [symmetric] refl refl refl F, of e2 bs err buf' c'] rec by simp
      then show ?thesis using pb by simp
    qed
  qed
qed

lemma ReadFull_loop_length:
  "ReadFull_loop m acc buf c = (evs, (bs, False), buf', c') \<Longrightarrow> length bs = length acc + m"
proof (induction m acc buf c arbitrary: evs bs buf' c' rule: ReadFull_loop.induct)
  case (1 m acc buf c)
  show ?case
  proof (cases "m = 0")
    case True
    then show ?thesis using 1(2) by simp
  next
    case False
    obtain e1 b1 r1 f1 d1 where br: "bufio_Read m buf c = (e1, (b1, r1), f1, d1)"
      by (metis prod_cases4 surj_pair)
    have le: "length b1 \<le> m"
      using br by (auto simp: bufio_Read_def conn_Read_def split: if_splits list.splits)
    show ?thesis
    proof (cases r1)
      case True
      then show ?thesis using 1(2) False br le by auto
    next
      case F: False
      obtain e2 r2 f2 d2 where rec: "ReadFull_loop (m - length b1) (acc @ b1) f1 d1 = (e2, r2, f2, d2)"
        by (metis prod_cases4)
      have "r2 = (bs, False)" "f2 = buf'" "d2 = c'"
        using 1(2) False br F rec by auto
      then have "length bs = length (acc @ b1) + (m - length b1)"
        using 1(1) [OF False br [symmetric] refl refl refl F, of e2 bs buf' c'] rec by simp
      then show ?thesis using le by simp
    qed
  qed
qed

lemma netRead_pending:
  assumes "netRead mem c = (evs, c', Inr data)"
  shows "pending c' < pending c"
proof -
  obtain e1 h r1 b1 c1 where h: "ReadFull_loop 8 [] [] c = (e1, (h, r1), b1, c1)"
    by (metis prod_cases4 surj_pair)
  obtain e2 d r2 b2 c2 where
    d: "ReadFull_loop (unat (BigEndian_Uint64 h)) [] b1 c1 = (e2, (d, r2), b2, c2)"
    by (metis prod_cases4 surj_pair)
  have l: "length h = 8" and c': "c' = c2"
    using assms h d by (auto simp: netRead_def ReadFull_def Let_def split: if_splits)
  from ReadFull_loop_pending [OF h] ReadFull_loop_pending [OF d] l c'
  show ?thesis by simp
qed

lemma netWrite_pending: "netWrite c data = (evs, c', r) \<Longrightarrow> pending c' = pending c"
  by (auto simp: netWrite_def conn_Write_def pending_def Let_def
           split: if_splits list.splits option.splits prod.splits)

text \<open>
  The inner loop of \<open>main\<close>: a frame from the client, to the device, one answer of the
  device into \<open>response\<close>, and its first \<open>n\<close> bytes back as a frame, until a step fails.
  The last component of the result is the panic that ended the process, if any.
\<close>

function relay ::
  "nat \<Rightarrow> usbDevice \<Rightarrow> byte list \<Rightarrow> conn \<Rightarrow> usb \<Rightarrow> event list \<times> conn \<times> usb \<times> error option" where
  "relay mem dev response c u =
     (case netRead mem c of
        (e1, c1, Inl err) \<Rightarrow> (e1, c1, u, if is_panic err then Some err else None)
      | (e1, c1, Inr data) \<Rightarrow>
          (case usbWrite dev data u of
             (e2, u2, Inl err) \<Rightarrow> (e1 @ e2, c1, u2, if is_panic err then Some err else None)
           | (e2, u2, Inr _) \<Rightarrow>
               (case usbRead dev response u2 of
                  (e3, u3, response', Inl err) \<Rightarrow>
                    (e1 @ e2 @ e3, c1, u3, if is_panic err then Some err else None)
                | (e3, u3, response', Inr n) \<Rightarrow>
                    if n > length response'
                    then (e1 @ e2 @ e3, c1, u3, Some PanicSliceBounds)
                    else (case netWrite c1 (take n response') of
                            (e4, c4, Inl err) \<Rightarrow> (e1 @ e2 @ e3 @ e4, c4, u3, None)
                          | (e4, c4, Inr _) \<Rightarrow>
                              (case relay mem dev response' c4 u3 of
                                 (es, c', u', p) \<Rightarrow> (e1 @ e2 @ e3 @ e4 @ es, c', u', p))))))"
  by pat_completeness auto
termination
proof (relation "measure (\<lambda>(mem, dev, response, c, u). pending c)")
  show "wf (measure (\<lambda>(mem, dev, response, c, u). pending c))" by simp
next
  fix mem dev response c u x1 x2 c1 r data x3 x4 u2 r2 un x5 x6 u3 x7 response' r3 n x8 x9 c4 r4 un2
  assume "(x1, x2) = netRead mem c" "(c1, r) = x2" "r = Inr data"
    and "(x8, x9) = netWrite c1 (take n response')" "(c4, r4) = x9"
  then have "netRead mem c = (x1, c1, Inr data)" "netWrite c1 (take n response') = (x8, c4, r4)"
    by simp_all
  then have "pending c4 < pending c"
    using netRead_pending netWrite_pending by metis
  then show "((mem, dev, response', c4, u3), (mem, dev, response, c, u))
      \<in> measure (\<lambda>(mem, dev, response, c, u). pending c)"
    by simp
qed

declare relay.simps [simp del]

datatype outcome = Continue | Crash error

text \<open>
  The body of the outer loop of \<open>main\<close> for one accepted connection. \<open>Continue\<close>: the
  loop goes on to the next \<open>Accept\<close>.
\<close>

definition session ::
  "nat \<Rightarrow> string \<Rightarrow> conn \<Rightarrow> usb \<Rightarrow> event list \<times> conn \<times> usb \<times> outcome" where
  "session mem argSerial c u =
     (case netReadHandshake c of
        (e1, c1, Inl err) \<Rightarrow> (e1, c1, u, Continue)
      | (e1, c1, Inr _) \<Rightarrow>
          (case usbDeviceOpen argSerial (u_devices u) of
             (e2, Inl err) \<Rightarrow>
               if is_panic err then (e1 @ e2, c1, u, Crash err)
               else (e1 @ e2 @ [Sleep 1000, ConnClose], c1, u, Continue)
           | (e2, Inr dev) \<Rightarrow>
               (case netWriteHandshake c1 of
                  (e3, c3, werr) \<Rightarrow>
                    (case relay mem dev (replicate 256 0) c3 u of
                       (e4, c4, u4, Some p) \<Rightarrow> (e1 @ e2 @ e3 @ e4, c4, u4, Crash p)
                     | (e4, c4, u4, None) \<Rightarrow>
                         (case usbDeviceClose dev of
                            (e5, Some p) \<Rightarrow> (e1 @ e2 @ e3 @ e4 @ [ConnClose] @ e5, c4, u4, Crash p)
                          | (e5, None) \<Rightarrow>
                              (e1 @ e2 @ e3 @ e4 @ [ConnClose] @ e5, c4, u4, Continue))))))"

text \<open>
  The outer loop over the connections that \<open>Accept\<close> returns, each with the USB side of
  the world during its session. After the last of them the loop waits in \<open>Accept\<close>.
\<close>

fun serve :: "nat \<Rightarrow> string \<Rightarrow> (conn \<times> usb) list \<Rightarrow> event list \<times> outcome" where
  "serve mem argSerial [] = ([Accept], Continue)"
| "serve mem argSerial ((c, u) # rest) =
     (case session mem argSerial c u of
        (evs, c', u', Crash p) \<Rightarrow> (Accept # evs, Crash p)
      | (evs, c', u', Continue) \<Rightarrow>
          (case serve mem argSerial rest of
             (evs', out) \<Rightarrow> (Accept # evs @ evs', out)))"

subsection \<open>Reference notions\<close>

text \<open>
  The pieces of at most \<open>m\<close> elements of a list, in order: the chunking that the
  specification describes for \<open>usbWrite\<close>.
\<close>

fun chunks :: "nat \<Rightarrow> 'a list \<Rightarrow> 'a list list" where
  "chunks m xs = (if m = 0 \<or> xs = [] then [] else take m xs # chunks m (drop m xs))"

declare chunks.simps [simp del]

text \<open>
  The bulk transfer that sends one piece to the out endpoint, and the number of answers
  at the head of a list that report no error.
\<close>

definition bulk_out :: "handle \<Rightarrow> endpoint \<Rightarrow> byte list \<Rightarrow> event" where
  "bulk_out h ep c = UsbBulk h (EndpointAddress ep) c (length c) usbTimeout"

definition leading_ok :: "(byte list \<times> bool) list \<Rightarrow> nat" where
  "leading_ok as = length (takeWhile (\<lambda>a. \<not> snd a) as)"

subsection \<open>Sample data\<close>

definition ep2 :: endpoint where
  "ep2 = \<lparr>TransferType = BulkTransfer, Direction = 0, EndpointAddress = 1, MaxPacketSize = 2\<rparr>"

definition dev2 :: usbDevice where
  "dev2 = \<lparr>endpointIn = None, endpointOut = Some ep2, device = None, handle = Some 7\<rparr>"

subsection \<open>Reference notions for the locator\<close>

text \<open>
  The filters of the locator as the specification words them: the active configuration
  has exactly one interface; the first alternate setting of its first interface has the
  class, subclass and protocol \<open>0xFF / 0x42 / 0x03\<close> and a bulk endpoint of each
  direction; and, when a serial number is asked for, the device opens and its serial
  string equals it. \<open>scannable\<close> holds of a device whose configuration, if it has one,
  reports at least one interface and lists a first interface with a first alternate
  setting. \<open>found\<close> is the record of a matched device before it is opened, with the
  last bulk endpoint of each direction.
\<close>

definition bulk_in :: "endpoint \<Rightarrow> bool" where
  "bulk_in e = (TransferType e = BulkTransfer \<and> Direction e = 1)"

definition bulk_out_ep :: "endpoint \<Rightarrow> bool" where
  "bulk_out_ep e = (TransferType e = BulkTransfer \<and> Direction e \<noteq> 1)"

definition last_of :: "('a \<Rightarrow> bool) \<Rightarrow> 'a list \<Rightarrow> 'a option" where
  "last_of P xs = (case filter P xs of [] \<Rightarrow> None | y # ys \<Rightarrow> Some (last (y # ys)))"

definition first_interface :: "device \<Rightarrow> interfaceDescriptor option" where
  "first_interface d =
     (case ActiveConfigDescriptor d of
        None \<Rightarrow> None
      | Some cfg \<Rightarrow>
          (case SupportedInterfaces cfg of
             [] \<Rightarrow> None
           | si # _ \<Rightarrow> (case InterfaceDescriptors si of [] \<Rightarrow> None | i # _ \<Rightarrow> Some i)))"

definition single_interface :: "device \<Rightarrow> bool" where
  "single_interface d =
     (case ActiveConfigDescriptor d of None \<Rightarrow> False | Some cfg \<Rightarrow> NumInterfaces cfg = 1)"

definition signature_ok :: "device \<Rightarrow> bool" where
  "signature_ok d =
     (single_interface d \<and>
      (case first_interface d of
         None \<Rightarrow> False
       | Some i \<Rightarrow>
           InterfaceClass i = 0xff \<and> InterfaceSubClass i = 0x42 \<and> InterfaceProtocol i = 0x03 \<and>
           list_ex bulk_in (EndpointDescriptors i) \<and>
           list_ex bulk_out_ep (EndpointDescriptors i)))"

definition serial_ok :: "string \<Rightarrow> device \<Rightarrow> bool" where
  "serial_ok serial d =
     (if serial = [] then True
      else (case scanOpen d of None \<Rightarrow> False | Some h \<Rightarrow> StringDescriptorASCII d = serial))"

definition candidate :: "string \<Rightarrow> device \<Rightarrow> bool" where
  "candidate serial d = (signature_ok d \<and> serial_ok serial d)"

definition scannable :: "device \<Rightarrow> bool" where
  "scannable d =
     (case ActiveConfigDescriptor d of
        None \<Rightarrow> True
      | Some cfg \<Rightarrow>
          0 < NumInterfaces cfg \<and>
          (case SupportedInterfaces cfg of [] \<Rightarrow> False | si # _ \<Rightarrow> InterfaceDescriptors si \<noteq> []))"

definition found :: "device \<Rightarrow> usbDevice \<Rightarrow> usbDevice" where
  "found d dev =
     dev\<lparr>endpointIn := (case first_interface d of None \<Rightarrow> None
                          | Some i \<Rightarrow> last_of bulk_in (EndpointDescriptors i)),
         endpointOut := (case first_interface d of None \<Rightarrow> None
                          | Some i \<Rightarrow> last_of bulk_out_ep (EndpointDescriptors i)),
         device := Some d\<rparr>"

definition slot :: "('a \<Rightarrow> bool) \<Rightarrow> 'a list \<Rightarrow> int \<Rightarrow> bool" where
  "slot P xs a =
     (if filter P xs = [] then a = - 1
      else 0 \<le> a \<and> nat a < length xs \<and> xs ! nat a = last (filter P xs))"

definition opened :: "device \<Rightarrow> handle \<Rightarrow> usbDevice" where
  "opened d h =
     (found d \<lparr>endpointIn = None, endpointOut = None, device = None, handle = None\<rparr>)
       \<lparr>handle := Some h\<rparr>"

definition ep1 :: endpoint where
  "ep1 = \<lparr>TransferType = BulkTransfer, Direction = 1, EndpointAddress = 0x81, MaxPacketSize = 2\<rparr>"

definition fb_config :: configDescriptor where
  "fb_config =
     \<lparr>NumInterfaces = 1,
      SupportedInterfaces =
        [\<lparr>InterfaceDescriptors =
            [\<lparr>InterfaceClass = 0xff, InterfaceSubClass = 0x42, InterfaceProtocol = 0x03,
              EndpointDescriptors = [ep1, ep2]\<rparr>]\<rparr>]\<rparr>"

definition fb_device :: device where
  "fb_device =
     \<lparr>deviceId = 1, ActiveConfigDescriptor = Some fb_config, SerialNumberIndex = 3,
      scanOpen = Some 10, StringDescriptorASCII = ''abc'', finalOpen = Some 11, claimOk = True\<rparr>"

definition fb_busy :: device where
  "fb_busy = fb_device\<lparr>deviceId := 2, finalOpen := None\<rparr>"

definition fb_opened :: usbDevice where
  "fb_opened =
     \<lparr>endpointIn = Some ep1, endpointOut = Some ep2, device = Some fb_device, handle = Some 11\<rparr>"

subsection \<open>Reference notions for the network side\<close>

text \<open>The bytes that the connection still delivers, whatever the pieces.\<close>

definition stream :: "conn \<Rightarrow> byte list" where
  "stream c = concat (c_in c)"

text \<open>A connection that accepts two writes, and one that delivers a frame in three pieces.\<close>

definition writer0 :: conn where
  "writer0 = \<lparr>c_in = [], c_wr = [None, None], c_out = []\<rparr>"

definition reader0 :: conn where
  "reader0 = \<lparr>c_in = [[0, 0, 0, 0, 0], [0, 0, 3, 1], [2, 3]], c_wr = [], c_out = []\<rparr>"

subsection \<open>Kinds of events, and reference notions for the sessions\<close>

text \<open>
  \<open>is_usb\<close> holds of the calls into the USB library. \<open>acquisition_fails\<close> says of
  the devices on the bus that the locator cannot succeed: not exactly one device passes
  the filters, or the final open or the claim of the one that does fails.
  \<open>write_fails\<close> says that the next write on the connection returns an error.
  \<open>reads_into a n\<close> holds of every event but a bulk transfer on the endpoint address
  \<open>a\<close> that is not for \<open>n\<close> bytes into a buffer of \<open>n\<close> bytes. \<open>next_answer\<close> is the
  answer of the device to the next bulk transfer. The remaining definitions are sample
  connections and buses.
\<close>

fun is_usb :: "event \<Rightarrow> bool" where
  "is_usb UsbDeviceList = True"
| "is_usb (UsbOpen d) = True"
| "is_usb (UsbStringDescriptor h i) = True"
| "is_usb (UsbClaim h i) = True"
| "is_usb (UsbRelease h i) = True"
| "is_usb (UsbHandleClose h) = True"
| "is_usb (UsbBulk h a d n t) = True"
| "is_usb _ = False"

fun is_conn_read :: "event \<Rightarrow> bool" where
  "is_conn_read (ConnRead n) = True"
| "is_conn_read _ = False"

fun is_conn_write :: "event \<Rightarrow> bool" where
  "is_conn_write (ConnWrite p) = True"
| "is_conn_write _ = False"

definition acquisition_fails :: "string \<Rightarrow> device list \<Rightarrow> bool" where
  "acquisition_fails serial ds =
     (case filter (candidate serial) ds of
        [d] \<Rightarrow> (case finalOpen d of None \<Rightarrow> True | Some h \<Rightarrow> if claimOk d then False else True)
      | _ \<Rightarrow> True)"

definition write_fails :: "conn \<Rightarrow> bool" where
  "write_fails c = (case c_wr c of [] \<Rightarrow> True | None # _ \<Rightarrow> False | Some k # _ \<Rightarrow> True)"

definition frame3 :: "byte list" where
  "frame3 = [0, 0, 0, 0, 0, 0, 0, 3, 1, 2, 3]"

definition conn_bad :: conn where
  "conn_bad = \<lparr>c_in = [[0x58, 0x58, 0x58, 0x58]], c_wr = [None], c_out = []\<rparr>"

definition conn_hs :: conn where
  "conn_hs = \<lparr>c_in = [FB01], c_wr = [None], c_out = []\<rparr>"

definition conn_noack :: conn where
  "conn_noack = \<lparr>c_in = [FB01, frame3], c_wr = [Some 0, None, None], c_out = []\<rparr>"

definition conn_joined :: conn where
  "conn_joined = \<lparr>c_in = [FB01 @ frame3], c_wr = [None, None, None], c_out = []\<rparr>"

definition usb_fb :: usb where
  "usb_fb = \<lparr>u_devices = [fb_device],
             u_bulk = [([], False), ([], False), ([0x4f, 0x4b, 0x41, 0x59, 0x21], False)]\<rparr>"

definition usb_none :: usb where
  "usb_none = \<lparr>u_devices = [], u_bulk = []\<rparr>"

definition two_frames :: conn where
  "two_frames = \<lparr>c_in = [[0, 0, 0, 0, 0, 0, 0, 1, 9] @ frame3], c_wr = [], c_out = []\<rparr>"

fun reads_into :: "byte \<Rightarrow> nat \<Rightarrow> event \<Rightarrow> bool" where
  "reads_into a n (UsbBulk h a' d k t) = (if a' = a then k = n \<and> length d = n else True)"
| "reads_into a n _ = True"

definition next_answer :: "usb \<Rightarrow> byte list \<times> bool" where
  "next_answer u = (case u_bulk u of [] \<Rightarrow> ([], True) | a # _ \<Rightarrow> a)"

definition usb_two :: usb where
  "usb_two = \<lparr>u_devices = [], u_bulk = [([0x4f, 0x4b], False), ([7], False)]\<rparr>"

section \<open>Properties\<close>

subsection \<open>Configurations without an interface\<close>

text \<open>
  C6. The scan skips a device whose active configuration reports more than one
  interface, but the guard is \<open>NumInterfaces > 1\<close>: a configuration that reports no
  interface passes it, and the index expression \<open>SupportedInterfaces[0]\<close> that follows
  panics on the empty list, so the whole scan fails instead of skipping the device.
\<close>

theorem usbDeviceOpen_zero_interfaces_panics:
  "snd (usbDeviceOpen []
          [\<lparr>deviceId = 0,
            ActiveConfigDescriptor = Some \<lparr>NumInterfaces = 0, SupportedInterfaces = []\<rparr>,
            SerialNumberIndex = 0, scanOpen = None, StringDescriptorASCII = [],
            finalOpen = None, claimOk = False\<rparr>])
     = Inl PanicIndexOutOfRange"
  by (simp add: usbDeviceOpen_def scan_device_def scan_init_def)

subsection \<open>Chunked writes\<close>

lemma chunks_Nil [simp]: "chunks m [] = []"
  by (simp add: chunks.simps)

lemma chunks_step: "0 < m \<Longrightarrow> xs \<noteq> [] \<Longrightarrow> chunks m xs = take m xs # chunks m (drop m xs)"
  by (subst chunks.simps) simp

lemma concat_chunks: "0 < m \<Longrightarrow> concat (chunks m xs) = xs"
proof (induction m xs rule: chunks.induct)
  case (1 m xs)
  then show ?case by (subst chunks.simps) auto
qed

lemma ceil_step:
  fixes n m :: nat
  assumes "0 < m" "0 < n"
  shows "(n + m - 1) div m = Suc ((n - 1) div m)"
proof -
  have m: "m \<noteq> 0" using assms by simp
  have "n + m - 1 = (n - 1) + m" using assms by simp
  then have "(n + m - 1) div m = ((n - 1) + m) div m" by (rule arg_cong)
  also have "\<dots> = (n - 1) div m + 1" by (rule div_add_self2 [OF m])
  finally show ?thesis by (simp only: Suc_eq_plus1)
qed

lemma ceil_drop:
  fixes n m :: nat
  assumes "0 < m" "0 < n"
  shows "(n - m + m - 1) div m = (n - 1) div m"
proof (cases "n \<le> m")
  case True
  then show ?thesis using assms by simp
next
  case False
  then show ?thesis by simp
qed

lemma length_chunks: "0 < m \<Longrightarrow> length (chunks m xs) = (length xs + m - 1) div m"
proof (induction m xs rule: chunks.induct)
  case (1 m xs)
  show ?case
  proof (cases "xs = []")
    case True
    then show ?thesis using 1(2) by simp
  next
    case False
    then have "length (chunks m xs) = Suc ((length xs - m + m - 1) div m)"
      using 1 by (simp add: chunks_step)
    also have "\<dots> = Suc ((length xs - 1) div m)"
      using ceil_drop [of m "length xs"] 1(2) False by simp
    also have "\<dots> = (length xs + m - 1) div m"
      using ceil_step [of m "length xs"] 1(2) False by simp
    finally show ?thesis .
  qed
qed

lemma chunks_le: "list_all (\<lambda>c. length c \<le> m) (chunks m xs)"
proof (induction m xs rule: chunks.induct)
  case (1 m xs)
  then show ?case by (subst chunks.simps) auto
qed

lemma go_div_nonneg: "0 \<le> a \<Longrightarrow> 0 < b \<Longrightarrow> go_div a b = a div b"
  by (cases "a = 0") (auto simp: go_div_def)


lemma usbWrite_loop_chunks:
  assumes mps: "0 < unat (MaxPacketSize ep)"
  shows "n = length (chunks (unat (MaxPacketSize ep)) (drop off data)) \<Longrightarrow>
         usbWrite_loop n (Some h) ep data (int off) u =
           (map (bulk_out h ep) (take (Suc (leading_ok (u_bulk u)))
                                   (chunks (unat (MaxPacketSize ep)) (drop off data))),
            u\<lparr>u_bulk := drop (min n (Suc (leading_ok (u_bulk u)))) (u_bulk u)\<rparr>,
            if n \<le> leading_ok (u_bulk u) then Inr () else Inl UsbWriteFailed)"
proof (induction n arbitrary: off u)
  case 0
  then show ?case by simp
next
  case (Suc n)
  define m where "m = unat (MaxPacketSize ep)"
  have m: "0 < m" using mps by (simp add: m_def)
  have ne: "drop off data \<noteq> []"
    using Suc.prems by (auto simp: m_def [symmetric])
  then have off: "off < length data" by simp
  define sz where "sz = min m (length data - off)"
  have sz: "(if int (length data) - int off > int m then int m else int (length data) - int off) = int sz"
    using off by (auto simp: sz_def min_def)
  have chunk: "take sz (drop off data) = take m (drop off data)"
    by (simp add: sz_def min_def)
  have lchunk: "length (take m (drop off data)) = sz"
    by (simp add: sz_def min_def)
  have rest: "drop (off + sz) data = drop m (drop off data)"
    by (auto simp: sz_def min_def add.commute)
  have cs: "chunks m (drop off data) = take m (drop off data) # chunks m (drop (off + sz) data)"
    using chunks_step [OF m ne] rest by simp
  have n: "n = length (chunks m (drop (off + sz) data))"
    using Suc.prems cs by (simp add: m_def [symmetric])
  have inr: "\<not> (int off < 0 \<or> int sz < 0 \<or> int off + int sz > int (length data))"
    using off by (auto simp: sz_def min_def)
  note IH = Suc.IH [OF n [unfolded m_def], folded m_def]
  show ?case
  proof (cases "u_bulk u")
    case Nil
    then show ?thesis
      using inr sz cs chunk lchunk
      by (simp add: m_def [symmetric] Let_def BulkTransfer_call_def leading_ok_def bulk_out_def)
  next
    case (Cons a as)
    show ?thesis
    proof (cases "snd a")
      case True
      then show ?thesis
        using inr sz cs chunk lchunk Cons
        by (simp add: m_def [symmetric] Let_def BulkTransfer_call_def leading_ok_def bulk_out_def)
    next
      case False
      have "usbWrite_loop n (Some h) ep data (int (off + sz)) (u\<lparr>u_bulk := as\<rparr>) =
           (map (bulk_out h ep) (take (Suc (leading_ok as)) (chunks m (drop (off + sz) data))),
            u\<lparr>u_bulk := drop (min n (Suc (leading_ok as))) as\<rparr>,
            if n \<le> leading_ok as then Inr () else Inl UsbWriteFailed)"
        using IH [of "u\<lparr>u_bulk := as\<rparr>"] by simp
      then show ?thesis
        using inr sz cs chunk lchunk Cons False
        by (simp add: m_def [symmetric] Let_def BulkTransfer_call_def leading_ok_def bulk_out_def)
    qed
  qed
qed


lemma usbWrite_count:
  assumes "0 < m"
  shows "nat (go_div (int (length data) + int m - 1) (int m)) = length (chunks m data)"
proof -
  have a: "int (length data) + int m - 1 = int (length data + m - 1)"
    using assms by (simp add: of_nat_diff)
  have g: "go_div (int (length data + m - 1)) (int m) = int (length data + m - 1) div int m"
    using assms by (intro go_div_nonneg) auto
  have "nat (go_div (int (length data) + int m - 1) (int m)) = (length data + m - 1) div m"
    by (simp only: a g zdiv_int [symmetric] nat_int)
  then show ?thesis by (simp only: length_chunks [OF assms])
qed

lemma usbWrite_run:
  assumes "endpointOut dev = Some ep" and "handle dev = Some h"
    and "0 < unat (MaxPacketSize ep)"
  shows "usbWrite dev data u =
           (map (bulk_out h ep)
              (take (Suc (leading_ok (u_bulk u))) (chunks (unat (MaxPacketSize ep)) data)),
            u\<lparr>u_bulk := drop (min (length (chunks (unat (MaxPacketSize ep)) data))
                                   (Suc (leading_ok (u_bulk u)))) (u_bulk u)\<rparr>,
            if length (chunks (unat (MaxPacketSize ep)) data) \<le> leading_ok (u_bulk u)
            then Inr () else Inl UsbWriteFailed)"
proof -
  define m where "m = unat (MaxPacketSize ep)"
  have m: "0 < m" using assms(3) by (simp add: m_def)
  have nz: "uint (MaxPacketSize ep) \<noteq> 0"
    using assms(3) by (metis unat_0 uint_0_iff less_numeral_extra(3))
  have "usbWrite dev data u =
          usbWrite_loop (length (chunks m data)) (Some h) ep data (int 0) u"
    using assms nz usbWrite_count [OF m, of data] by (simp add: usbWrite_def Let_def m_def)
  also have "\<dots> = (map (bulk_out h ep) (take (Suc (leading_ok (u_bulk u))) (chunks m data)),
            u\<lparr>u_bulk := drop (min (length (chunks m data)) (Suc (leading_ok (u_bulk u)))) (u_bulk u)\<rparr>,
            if length (chunks m data) \<le> leading_ok (u_bulk u) then Inr () else Inl UsbWriteFailed)"
    using usbWrite_loop_chunks [OF assms(3), of "length (chunks m data)" 0 data h u]
    by (simp add: m_def)
  finally show ?thesis by (simp add: m_def)
qed

text \<open>
  C2 (as amended). With a maximum packet size of at least 1, \<open>usbWrite\<close> issues the pieces
  of the payload as bulk transfers in order and stops after the first transfer that
  fails: it issues the first \<open>k + 1\<close> pieces, where \<open>k\<close> is the number of transfers
  that succeed before the first failure, which is all of them when every transfer
  succeeds, and then it returns success. The pieces are \<open>ceil(L / maxPacketSize)\<close> in
  number (none for the empty payload), each of at most \<open>maxPacketSize\<close> bytes, and
  their concatenation is the payload.
\<close>

theorem usbWrite_chunks:
  assumes "endpointOut dev = Some ep" and "handle dev = Some h"
    and "0 < unat (MaxPacketSize ep)"
  shows "usbWrite dev data u =
           (map (bulk_out h ep)
              (take (Suc (leading_ok (u_bulk u))) (chunks (unat (MaxPacketSize ep)) data)),
            u\<lparr>u_bulk := drop (min (length (chunks (unat (MaxPacketSize ep)) data))
                                   (Suc (leading_ok (u_bulk u)))) (u_bulk u)\<rparr>,
            if length (chunks (unat (MaxPacketSize ep)) data) \<le> leading_ok (u_bulk u)
            then Inr () else Inl UsbWriteFailed)
       \<and> length (chunks (unat (MaxPacketSize ep)) data)
           = (length data + unat (MaxPacketSize ep) - 1) div unat (MaxPacketSize ep)
       \<and> list_all (\<lambda>c. length c \<le> unat (MaxPacketSize ep)) (chunks (unat (MaxPacketSize ep)) data)
       \<and> concat (chunks (unat (MaxPacketSize ep)) data) = data"
  using usbWrite_run [OF assms] length_chunks [OF assms(3), of data]
    chunks_le [of "unat (MaxPacketSize ep)" data] concat_chunks [OF assms(3), of data]
  by simp

theorem usbWrite_chunks_witness:
  "endpointOut dev2 = Some ep2 \<and> handle dev2 = Some 7 \<and> 0 < unat (MaxPacketSize ep2) \<and>
   usbWrite dev2 [1, 2, 3] \<lparr>u_devices = [], u_bulk = [([], False), ([], False)]\<rparr> =
     ([UsbBulk 7 1 [1, 2] 2 5000, UsbBulk 7 1 [3] 1 5000], \<lparr>u_devices = [], u_bulk = []\<rparr>, Inr ())"
  using usbWrite_chunks [of dev2 ep2 7 "[1, 2, 3]" "\<lparr>u_devices = [], u_bulk = [([], False), ([], False)]\<rparr>"]
  by (simp add: dev2_def ep2_def chunks.simps leading_ok_def bulk_out_def usbTimeout_def)

text \<open>
  C2 as stated fails where a transfer fails: a payload of 3 bytes with a maximum packet
  size of 2 has \<open>ceil(3 / 2) = 2\<close> pieces, and \<open>usbWrite\<close> issues one transfer when the
  first fails.
\<close>

theorem usbWrite_stops_at_failed_transfer:
  "fst (usbWrite dev2 [1, 2, 3] \<lparr>u_devices = [], u_bulk = [([], True)]\<rparr>) = [UsbBulk 7 1 [1, 2] 2 5000]
   \<and> (length [1, 2, 3 :: byte] + unat (MaxPacketSize ep2) - 1) div unat (MaxPacketSize ep2) = 2"
  using usbWrite_run [of dev2 ep2 7 "[1, 2, 3]" "\<lparr>u_devices = [], u_bulk = [([], True)]\<rparr>"]
  by (simp add: dev2_def ep2_def chunks.simps leading_ok_def bulk_out_def usbTimeout_def)

subsection \<open>The device locator\<close>

lemma slot_snoc_hit: "P x \<Longrightarrow> slot P (xs @ [x]) (int (length xs))"
  by (simp add: slot_def)

lemma slot_snoc_miss: "\<not> P x \<Longrightarrow> slot P xs a \<Longrightarrow> slot P (xs @ [x]) a"
  by (auto simp: slot_def nth_append)

lemma endpoint_loop_slots:
  "endpoint_loop es (length pre) (a, b) = (inn, out) \<Longrightarrow>
   slot bulk_in pre a \<Longrightarrow> slot bulk_out_ep pre b \<Longrightarrow>
   slot bulk_in (pre @ es) inn \<and> slot bulk_out_ep (pre @ es) out"
proof (induction es arbitrary: pre a b)
  case Nil
  then show ?case by simp
next
  case (Cons e es)
  have len: "Suc (length pre) = length (pre @ [e])" by simp
  show ?case
  proof (cases "TransferType e = BulkTransfer")
    case False
    then have "endpoint_loop es (length (pre @ [e])) (a, b) = (inn, out)"
      using Cons.prems(1) by simp
    moreover have "\<not> bulk_in e" "\<not> bulk_out_ep e"
      using False by (simp_all add: bulk_in_def bulk_out_ep_def)
    then have "slot bulk_in (pre @ [e]) a" "slot bulk_out_ep (pre @ [e]) b"
      using Cons.prems(2,3) by (blast intro: slot_snoc_miss)+
    ultimately show ?thesis using Cons.IH [of "pre @ [e]" a b] by simp
  next
    case B: True
    show ?thesis
    proof (cases "Direction e = 1")
      case True
      then have "endpoint_loop es (length (pre @ [e])) (int (length pre), b) = (inn, out)"
        using Cons.prems(1) B by simp
      moreover have "bulk_in e" "\<not> bulk_out_ep e"
        using True B by (simp_all add: bulk_in_def bulk_out_ep_def)
      then have "slot bulk_in (pre @ [e]) (int (length pre))" "slot bulk_out_ep (pre @ [e]) b"
        using Cons.prems(3) by (blast intro: slot_snoc_miss slot_snoc_hit)+
      ultimately show ?thesis using Cons.IH [of "pre @ [e]" "int (length pre)" b] by simp
    next
      case False
      then have "endpoint_loop es (length (pre @ [e])) (a, int (length pre)) = (inn, out)"
        using Cons.prems(1) B by simp
      moreover have "\<not> bulk_in e" "bulk_out_ep e"
        using False B by (simp_all add: bulk_in_def bulk_out_ep_def)
      then have "slot bulk_in (pre @ [e]) a" "slot bulk_out_ep (pre @ [e]) (int (length pre))"
        using Cons.prems(2) by (blast intro: slot_snoc_miss slot_snoc_hit)+
      ultimately show ?thesis using Cons.IH [of "pre @ [e]" a "int (length pre)"] by simp
    qed
  qed
qed

lemma endpoint_loop_result:
  assumes "endpoint_loop es 0 (- 1, - 1) = (inn, out)"
  shows "(inn < 0) = (\<not> list_ex bulk_in es)" and "(out < 0) = (\<not> list_ex bulk_out_ep es)"
    and "0 \<le> inn \<Longrightarrow> last_of bulk_in es = Some (es ! nat inn)"
    and "0 \<le> out \<Longrightarrow> last_of bulk_out_ep es = Some (es ! nat out)"
proof -
  have "slot bulk_in ([] @ es) inn \<and> slot bulk_out_ep ([] @ es) out"
    using assms by (intro endpoint_loop_slots [of es "[]" "- 1" "- 1"]) (simp_all add: slot_def)
  then have s: "slot bulk_in es inn" "slot bulk_out_ep es out" by simp_all
  have ex: "\<And>P xs. list_ex P xs = (filter P xs \<noteq> [])"
    by (auto simp: list_ex_iff filter_empty_conv)
  show "(inn < 0) = (\<not> list_ex bulk_in es)" using s(1) by (auto simp: slot_def ex split: if_splits)
  show "(out < 0) = (\<not> list_ex bulk_out_ep es)" using s(2) by (auto simp: slot_def ex split: if_splits)
  show "0 \<le> inn \<Longrightarrow> last_of bulk_in es = Some (es ! nat inn)"
    using s(1) by (auto simp: slot_def last_of_def split: if_splits list.splits)
  show "0 \<le> out \<Longrightarrow> last_of bulk_out_ep es = Some (es ! nat out)"
    using s(2) by (auto simp: slot_def last_of_def split: if_splits list.splits)
qed


lemma scan_device_candidate:
  assumes "scannable d"
  shows "\<exists>st'. scan_device serial d st = Inr st' \<and>
           s_dev st' = (if candidate serial d then found d (s_dev st) else s_dev st) \<and>
           s_count st' = (if candidate serial d then s_count st + 1 else s_count st)"
proof (cases "ActiveConfigDescriptor d")
  case None
  then show ?thesis
    by (simp add: scan_device_def candidate_def signature_ok_def single_interface_def)
next
  case (Some cfg)
  then obtain si sis i ir where
    n: "0 < NumInterfaces cfg" and si: "SupportedInterfaces cfg = si # sis"
    and i: "InterfaceDescriptors si = i # ir"
    using assms by (auto simp: scannable_def split: list.splits) (metis list.exhaust)
  have fi: "first_interface d = Some i"
    using Some si i by (simp add: first_interface_def)
  obtain inn out where el: "endpoint_loop (EndpointDescriptors i) 0 (- 1, - 1) = (inn, out)"
    by (metis surj_pair)
  note r = endpoint_loop_result [OF el]
  show ?thesis
  proof (cases "candidate serial d")
    case False
    then show ?thesis
      using Some n si i fi el r(1,2)
      by (auto simp: scan_device_def candidate_def signature_ok_def single_interface_def
            serial_ok_def Let_def matched_def split: option.splits if_splits)
  next
    case True
    then have sig: "NumInterfaces cfg = 1" "InterfaceClass i = 0xff" "InterfaceSubClass i = 0x42"
      "InterfaceProtocol i = 0x03" "list_ex bulk_in (EndpointDescriptors i)"
      "list_ex bulk_out_ep (EndpointDescriptors i)"
      using Some fi by (simp_all add: candidate_def signature_ok_def single_interface_def)
    then have pos: "0 \<le> inn" "0 \<le> out" using r(1,2) by auto
    note e = r(3) [OF pos(1)] r(4) [OF pos(2)]
    show ?thesis
      using True Some si i fi el sig(1-4) pos e
      by (auto simp: scan_device_def candidate_def serial_ok_def Let_def matched_def found_def
            split: option.splits if_splits)
  qed
qed

lemma scan_loop_candidates:
  assumes "list_all scannable ds"
  shows "\<exists>st'. scan_loop serial ds st = (st', None) \<and>
           s_dev st' = (case rev (filter (candidate serial) ds) of
                          [] \<Rightarrow> s_dev st
                        | d # _ \<Rightarrow> found d (s_dev st)) \<and>
           s_count st' = s_count st + length (filter (candidate serial) ds)"
  using assms
proof (induction ds arbitrary: st)
  case Nil
  then show ?case by simp
next
  case (Cons d ds)
  then have sc: "scannable d" and rest: "list_all scannable ds" by simp_all
  obtain st1 where st1: "scan_device serial d st = Inr st1"
    "s_dev st1 = (if candidate serial d then found d (s_dev st) else s_dev st)"
    "s_count st1 = (if candidate serial d then s_count st + 1 else s_count st)"
    using scan_device_candidate [OF sc, of serial st] by blast
  obtain st' where st': "scan_loop serial ds st1 = (st', None)"
    "s_dev st' = (case rev (filter (candidate serial) ds) of [] \<Rightarrow> s_dev st1 | d # _ \<Rightarrow> found d (s_dev st1))"
    "s_count st' = s_count st1 + length (filter (candidate serial) ds)"
    using Cons.IH [OF rest, of st1] by blast
  have ff: "\<And>a b dev. found a (found b dev) = found a dev"
    by (simp add: found_def)
  have "s_dev st' = (case rev (filter (candidate serial) (d # ds)) of
                          [] \<Rightarrow> s_dev st | d # _ \<Rightarrow> found d (s_dev st))"
    using st'(2) st1(2) by (cases "rev (filter (candidate serial) ds)") (auto simp: ff)
  moreover have "s_count st' = s_count st + length (filter (candidate serial) (d # ds))"
    using st'(3) st1(3) by simp
  ultimately show ?case using st1(1) st'(1) by simp
qed

lemmas sample_defs = ep1_def ep2_def fb_config_def fb_device_def fb_busy_def fb_opened_def

lemmas locator_defs =
  usbDeviceOpen_def scan_device_def scan_init_def matched_def candidate_def signature_ok_def
  single_interface_def first_interface_def serial_ok_def scannable_def bulk_in_def bulk_out_ep_def
  found_def opened_def last_of_def

lemma usbDeviceOpen_outcome:
  assumes "list_all scannable ds"
  shows "snd (usbDeviceOpen serial ds) =
           (case filter (candidate serial) ds of
              [] \<Rightarrow> Inl NoDeviceFound
            | [d] \<Rightarrow>
                (case finalOpen d of
                   None \<Rightarrow> Inl OpenDeviceFailed
                 | Some h \<Rightarrow> if claimOk d then Inr (opened d h) else Inl ClaimInterfaceFailed)
            | _ # _ # _ \<Rightarrow> Inl MultipleDevices)"
proof -
  obtain st where st: "scan_loop serial ds scan_init = (st, None)"
    "s_dev st = (case rev (filter (candidate serial) ds) of
                   [] \<Rightarrow> s_dev scan_init | d # _ \<Rightarrow> found d (s_dev scan_init))"
    "s_count st = s_count scan_init + length (filter (candidate serial) ds)"
    using scan_loop_candidates [OF assms, of serial scan_init] by blast
  show ?thesis
  proof (cases "filter (candidate serial) ds")
    case Nil
    then show ?thesis using st by (simp add: usbDeviceOpen_def scan_init_def)
  next
    case (Cons d rest)
    show ?thesis
    proof (cases rest)
      case Nil
      then show ?thesis
        using st Cons
        by (simp add: usbDeviceOpen_def scan_init_def found_def opened_def split: option.splits)
    next
      case (Cons e more)
      then show ?thesis
        using st \<open>filter (candidate serial) ds = d # rest\<close>
        by (simp add: usbDeviceOpen_def scan_init_def)
    qed
  qed
qed


text \<open>
  C1 (as amended). On a list of scannable devices \<open>usbDeviceOpen\<close> returns a device
  exactly when one device of the list passes the interface-signature filter and the
  serial filter, and the final \<open>Open\<close> and \<open>ClaimInterface(0)\<close> on it succeed; the
  result is then that device, opened. No match is the error "no device found", more
  than one match the error "multiple devices", and a failure of the final open or of
  the claim an error of its own.
\<close>

theorem usbDeviceOpen_result:
  assumes "list_all scannable ds"
  shows "snd (usbDeviceOpen serial ds) =
           (case filter (candidate serial) ds of
              [] \<Rightarrow> Inl NoDeviceFound
            | [d] \<Rightarrow>
                (case finalOpen d of
                   None \<Rightarrow> Inl OpenDeviceFailed
                 | Some h \<Rightarrow> if claimOk d then Inr (opened d h) else Inl ClaimInterfaceFailed)
            | _ # _ # _ \<Rightarrow> Inl MultipleDevices)"
  using assms by (rule usbDeviceOpen_outcome)

theorem usbDeviceOpen_result_witness:
  "list_all scannable [fb_device] \<and> snd (usbDeviceOpen [] [fb_device]) = Inr fb_opened"
  using usbDeviceOpen_result [of "[fb_device]" "[]"]
  by (simp add: sample_defs locator_defs)

text \<open>
  C1 as stated fails where the only matching device cannot be opened: exactly one device
  passes the filters and the locator returns an error.
\<close>

theorem usbDeviceOpen_single_match_open_fails:
  "length (filter (candidate []) [fb_busy]) = 1 \<and>
   snd (usbDeviceOpen [] [fb_busy]) = Inl OpenDeviceFailed"
  by (simp add: sample_defs locator_defs)

subsection \<open>Frames\<close>

lemma bit_byte_part:
  fixes v :: "64 word"
  shows "bit (push_bit k (ucast (ucast (drop_bit k v) :: 8 word)) :: 64 word) n
         = (k \<le> n \<and> n < k + 8 \<and> n < 64 \<and> bit v n)"
  by (auto simp: bit_simps)

lemma bit_byte_low:
  fixes v :: "64 word"
  shows "bit (ucast (ucast v :: 8 word) :: 64 word) n = (n < 8 \<and> bit v n)"
  by (auto simp: bit_simps)

lemma nth8:
  "[a, b, c, d, e, f, g, h] ! 0 = a" "[a, b, c, d, e, f, g, h] ! 1 = b"
  "[a, b, c, d, e, f, g, h] ! 2 = c" "[a, b, c, d, e, f, g, h] ! 3 = d"
  "[a, b, c, d, e, f, g, h] ! 4 = e" "[a, b, c, d, e, f, g, h] ! 5 = f"
  "[a, b, c, d, e, f, g, h] ! 6 = g" "[a, b, c, d, e, f, g, h] ! 7 = h"
  by simp_all

lemma BigEndian_roundtrip: "BigEndian_Uint64 (BigEndian_PutUint64 v) = v"
  unfolding BigEndian_Uint64_def BigEndian_PutUint64_def nth8
  apply (rule bit_word_eqI)
  apply (simp only: bit_or_iff bit_byte_part bit_byte_low)
  apply simp
  apply arith
  done

lemma length_PutUint64 [simp]: "length (BigEndian_PutUint64 v) = 8"
  by (simp add: BigEndian_PutUint64_def)


lemma take_drop_take:
  "m \<le> d \<Longrightarrow> take m xs @ drop m (take d xs) @ drop d xs = xs"
proof -
  assume "m \<le> d"
  then have "take m xs = take m (take d xs)" by (simp add: min_def)
  then have "take m xs @ drop m (take d xs) = take d xs"
    by (simp only: append_take_drop_id)
  then show ?thesis by (metis append_assoc append_take_drop_id)
qed

lemma bufio_Read_stream:
  assumes "bufio_Read m buf c = (evs, (bs, err), buf', c')" "0 < m"
  shows "bs @ buf' @ stream c' = buf @ stream c" and "length bs \<le> m"
    and "err \<Longrightarrow> buf @ stream c = [] \<and> buf' = [] \<and> stream c' = []"
  using assms
  by (auto simp: bufio_Read_def conn_Read_def stream_def take_drop_take
           split: if_splits list.splits)

lemma bufio_Read_keeps_out:
  "bufio_Read m buf c = (evs, r, buf', c') \<Longrightarrow> c_out c' = c_out c \<and> c_wr c' = c_wr c"
  by (auto simp: bufio_Read_def conn_Read_def split: if_splits list.splits)

lemma ReadFull_loop_stream:
  "ReadFull_loop m acc buf c = (evs, (bs, err), buf', c') \<Longrightarrow>
   bs = acc @ take m (buf @ stream c) \<and> err = (length (buf @ stream c) < m) \<and>
   buf' @ stream c' = drop m (buf @ stream c)"
proof (induction m acc buf c arbitrary: evs bs err buf' c' rule: ReadFull_loop.induct)
  case (1 m acc buf c)
  show ?case
  proof (cases "m = 0")
    case True
    then show ?thesis using 1(2) by simp
  next
    case False
    then have m: "0 < m" by simp
    obtain e1 b1 r1 f1 d1 where br: "bufio_Read m buf c = (e1, (b1, r1), f1, d1)"
      by (metis prod_cases4 surj_pair)
    note st = bufio_Read_stream [OF br m]
    show ?thesis
    proof (cases r1)
      case True
      then have e: "buf @ stream c = []" "f1 = []" "stream d1 = []" using st(3) by simp_all
      then have "b1 = []" using st(1) by simp
      then show ?thesis using 1(2) False br True m e by auto
    next
      case F: False
      obtain e2 r2 f2 d2 where rec: "ReadFull_loop (m - length b1) (acc @ b1) f1 d1 = (e2, r2, f2, d2)"
        by (metis prod_cases4)
      have eq: "r2 = (bs, err)" "f2 = buf'" "d2 = c'"
        using 1(2) False br F rec by auto
      have ih: "bs = (acc @ b1) @ take (m - length b1) (f1 @ stream d1) \<and>
                err = (length (f1 @ stream d1) < m - length b1) \<and>
                buf' @ stream c' = drop (m - length b1) (f1 @ stream d1)"
        using 1(1) [OF False br [symmetric] refl refl refl F, of e2 bs err buf' c'] rec eq by simp
      have s: "buf @ stream c = b1 @ (f1 @ stream d1)" using st(1) by simp
      show ?thesis
        unfolding s using ih st(2) by auto
    qed
  qed
qed

lemma ReadFull_loop_keeps_out:
  "ReadFull_loop m acc buf c = (evs, r, buf', c') \<Longrightarrow> c_out c' = c_out c \<and> c_wr c' = c_wr c"
proof (induction m acc buf c arbitrary: evs r buf' c' rule: ReadFull_loop.induct)
  case (1 m acc buf c)
  show ?case
  proof (cases "m = 0")
    case True
    then show ?thesis using 1(2) by simp
  next
    case False
    obtain e1 b1 r1 f1 d1 where br: "bufio_Read m buf c = (e1, (b1, r1), f1, d1)"
      by (metis prod_cases4 surj_pair)
    note k = bufio_Read_keeps_out [OF br]
    show ?thesis
    proof (cases r1)
      case True
      then show ?thesis using 1(2) False br k by auto
    next
      case F: False
      obtain e2 r2 f2 d2 where rec: "ReadFull_loop (m - length b1) (acc @ b1) f1 d1 = (e2, r2, f2, d2)"
        by (metis prod_cases4)
      have eq: "r2 = r" "f2 = buf'" "d2 = c'"
        using 1(2) False br F rec by auto
      have "c_out c' = c_out d1 \<and> c_wr c' = c_wr d1"
        using 1(1) [OF False br [symmetric] refl refl refl F, of e2 r buf' c'] rec eq by simp
      then show ?thesis using k by simp
    qed
  qed
qed

lemma netRead_frame:
  assumes s: "stream c = BigEndian_PutUint64 (word_of_nat (length data)) @ data @ rest"
    and len: "length data < 2 ^ 64" and mem: "length data \<le> mem"
  shows "\<exists>evs c'. netRead mem c = (evs, c', Inr data)"
proof -
  let ?h = "BigEndian_PutUint64 (word_of_nat (length data))"
  obtain e1 h r1 b1 c1 where h: "ReadFull_loop 8 [] [] c = (e1, (h, r1), b1, c1)"
    by (metis prod_cases4 surj_pair)
  from ReadFull_loop_stream [OF h] s
  have hh: "h = ?h" and b1: "b1 @ stream c1 = data @ rest" by simp_all
  have sz: "unat (BigEndian_Uint64 h) = length data"
    using len by (simp add: hh BigEndian_roundtrip unat_of_nat)
  obtain e2 d r2 b2 c2 where d: "ReadFull_loop (length data) [] b1 c1 = (e2, (d, r2), b2, c2)"
    by (metis prod_cases4 surj_pair)
  from ReadFull_loop_stream [OF d] b1
  have "d = data" "r2 = False" by simp_all
  then show ?thesis
    using h d sz mem hh by (simp add: netRead_def ReadFull_def)
qed

lemma netWrite_out:
  assumes "netWrite c data = (evs, c', Inr ())"
  shows "c_out c' = c_out c @ BigEndian_PutUint64 (word_of_nat (length data)) @ data"
  using assms
  by (auto simp: netWrite_def conn_Write_def Let_def split: list.splits option.splits if_splits)

lemma netWrite_accepted:
  assumes "c_wr w = None # None # os"
  shows "netWrite w data =
           ([ConnWrite (BigEndian_PutUint64 (word_of_nat (length data))), ConnWrite data],
            w\<lparr>c_wr := os,
               c_out := c_out w @ BigEndian_PutUint64 (word_of_nat (length data)) @ data\<rparr>,
            Inr ())"
  using assms by (simp add: netWrite_def conn_Write_def Let_def)

text \<open>
  C3. On a connection that accepts its two writes, \<open>netWrite\<close> succeeds for every
  payload and writes the 8-byte big-endian length followed by the payload bytes; and
  \<open>netRead\<close> on a connection that delivers the bytes written, in any pieces and
  followed by anything, returns exactly the payload (hence its length as well). The
  payload is shorter than \<open>2^64\<close> bytes, as every slice is, and fits in the memory of
  the reading side.
\<close>

theorem frame_roundtrip:
  assumes "c_wr w = None # None # os"
    and "stream r = drop (length (c_out w)) (c_out (fst (snd (netWrite w data)))) @ rest"
    and "length data < 2 ^ 64" and "length data \<le> mem"
  shows "netWrite w data =
           ([ConnWrite (BigEndian_PutUint64 (word_of_nat (length data))), ConnWrite data],
            w\<lparr>c_wr := os,
               c_out := c_out w @ BigEndian_PutUint64 (word_of_nat (length data)) @ data\<rparr>,
            Inr ())
         \<and> (\<exists>evs' r'. netRead mem r = (evs', r', Inr data))"
proof -
  note w = netWrite_accepted [OF assms(1), of data]
  have "stream r = BigEndian_PutUint64 (word_of_nat (length data)) @ data @ rest"
    using assms(2) by (simp add: w)
  then have "\<exists>evs' r'. netRead mem r = (evs', r', Inr data)"
    using assms(3,4) by (rule netRead_frame)
  then show ?thesis using w by simp
qed

lemma PutUint64_3: "BigEndian_PutUint64 3 = [0, 0, 0, 0, 0, 0, 0, 3]"
  by (simp add: BigEndian_PutUint64_def drop_bit_eq_div)

theorem frame_roundtrip_witness:
  "c_wr writer0 = None # None # [] \<and>
   stream reader0 = drop (length (c_out writer0)) (c_out (fst (snd (netWrite writer0 [1, 2, 3])))) @ [] \<and>
   length [1, 2, 3 :: byte] < 2 ^ 64 \<and> length [1, 2, 3 :: byte] \<le> 1000 \<and>
   netWrite writer0 [1, 2, 3] =
     ([ConnWrite [0, 0, 0, 0, 0, 0, 0, 3], ConnWrite [1, 2, 3]],
      \<lparr>c_in = [], c_wr = [], c_out = [0, 0, 0, 0, 0, 0, 0, 3, 1, 2, 3]\<rparr>, Inr ()) \<and>
   (\<exists>evs' r'. netRead 1000 reader0 = (evs', r', Inr [1, 2, 3]))"
proof -
  have a: "c_wr writer0 = None # None # []" by (simp add: writer0_def)
  have w: "netWrite writer0 [1, 2, 3] =
     ([ConnWrite [0, 0, 0, 0, 0, 0, 0, 3], ConnWrite [1, 2, 3]],
      \<lparr>c_in = [], c_wr = [], c_out = [0, 0, 0, 0, 0, 0, 0, 3, 1, 2, 3]\<rparr>, Inr ())"
    by (simp add: netWrite_def PutUint64_3 conn_Write_def writer0_def Let_def)
  have s: "stream reader0 =
      drop (length (c_out writer0)) (c_out (fst (snd (netWrite writer0 [1, 2, 3])))) @ []"
    unfolding w by (simp add: stream_def reader0_def writer0_def)
  have l: "length [1, 2, 3 :: byte] < 2 ^ 64" "length [1, 2, 3 :: byte] \<le> 1000" by simp_all
  from frame_roundtrip [OF a s l] a s l w show ?thesis by simp
qed

subsection \<open>Sessions\<close>

lemma bufio_Read_events:
  "bufio_Read m buf c = (evs, r, buf', c') \<Longrightarrow> list_all is_conn_read evs"
  by (auto simp: bufio_Read_def split: if_splits prod.splits option.splits)

lemma ReadFull_loop_events:
  "ReadFull_loop m acc buf c = (evs, r, buf', c') \<Longrightarrow> list_all is_conn_read evs"
proof (induction m acc buf c arbitrary: evs r buf' c' rule: ReadFull_loop.induct)
  case (1 m acc buf c)
  show ?case
  proof (cases "m = 0")
    case True
    then show ?thesis using 1(2) by simp
  next
    case False
    obtain e1 b1 r1 f1 d1 where br: "bufio_Read m buf c = (e1, (b1, r1), f1, d1)"
      by (metis prod_cases4 surj_pair)
    note k = bufio_Read_events [OF br]
    show ?thesis
    proof (cases r1)
      case True
      then show ?thesis using 1(2) False br k by auto
    next
      case F: False
      obtain e2 r2 f2 d2 where rec: "ReadFull_loop (m - length b1) (acc @ b1) f1 d1 = (e2, r2, f2, d2)"
        by (metis prod_cases4)
      have eq: "evs = e1 @ e2" "r2 = r" "f2 = buf'" "d2 = c'"
        using 1(2) False br F rec by auto
      have "list_all is_conn_read e2"
        using 1(1) [OF False br [symmetric] refl refl refl F, of e2 r buf' c'] rec eq by simp
      then show ?thesis using k eq by simp
    qed
  qed
qed

lemma netReadHandshake_result:
  "\<exists>evs c'. netReadHandshake c =
       (evs, c', if take 4 (stream c) = FB01 then Inr () else Inl ReadHandshakeFailed) \<and>
     list_all is_conn_read evs \<and> c_out c' = c_out c \<and> c_wr c' = c_wr c"
proof -
  obtain e1 h r1 b1 c1 where h: "ReadFull_loop 4 [] [] c = (e1, (h, r1), b1, c1)"
    by (metis prod_cases4 surj_pair)
  have hh: "h = take 4 (stream c)"
    using ReadFull_loop_stream [OF h] by simp
  have l: "length FB01 = 4" by (simp add: FB01_def)
  have "(length h \<noteq> 4 \<or> h \<noteq> FB01) = (take 4 (stream c) \<noteq> FB01)"
    using hh l by auto
  then show ?thesis
    using h ReadFull_loop_events [OF h] ReadFull_loop_keeps_out [OF h]
    by (auto simp: netReadHandshake_def ReadFull_def)
qed

lemma scan_device_events:
  "scan_device serial d st = Inr st' \<Longrightarrow> list_all is_usb (s_events st) \<Longrightarrow>
   list_all is_usb (s_events st')"
  by (auto simp: scan_device_def matched_def Let_def
           split: option.splits list.splits if_splits prod.splits)

lemma scan_loop_events:
  "scan_loop serial ds st = (st', p) \<Longrightarrow> list_all is_usb (s_events st) \<Longrightarrow>
   list_all is_usb (s_events st')"
proof (induction ds arbitrary: st)
  case Nil
  then show ?case by simp
next
  case (Cons d ds)
  show ?case
  proof (cases "scan_device serial d st")
    case (Inl e)
    then show ?thesis using Cons.prems by simp
  next
    case (Inr st1)
    then show ?thesis
      using Cons.prems Cons.IH [of st1] scan_device_events [OF Inr] by simp
  qed
qed

lemma usbDeviceOpen_events: "list_all is_usb (fst (usbDeviceOpen serial ds))"
proof -
  obtain st p where sl: "scan_loop serial ds scan_init = (st, p)" by (metis surj_pair)
  have "list_all is_usb (s_events st)"
    using scan_loop_events [OF sl] by (simp add: scan_init_def)
  moreover have "list_all is_usb (map UsbHandleClose (s_deferred st))"
    by (simp add: list_all_iff)
  ultimately show ?thesis
    using sl by (auto simp: usbDeviceOpen_def Let_def split: option.splits)
qed


lemma conn_read_not_write: "list_all is_conn_read evs \<Longrightarrow> filter is_conn_write evs = []"
  by (induction evs) (auto elim: is_conn_read.elims)

lemma usb_not_write: "list_all is_usb evs \<Longrightarrow> filter is_conn_write evs = []"
  by (induction evs) (auto elim: is_usb.elims)


lemma acquisition_fails_error:
  assumes "list_all scannable ds" and "acquisition_fails serial ds"
  shows "\<exists>err. snd (usbDeviceOpen serial ds) = Inl err \<and>
           err \<in> {NoDeviceFound, MultipleDevices, OpenDeviceFailed, ClaimInterfaceFailed}"
  using assms(2) usbDeviceOpen_outcome [OF assms(1), of serial]
  by (auto simp: acquisition_fails_def split: list.splits option.splits if_splits)

text \<open>
  C7. When the handshake is read and the acquisition of the device fails (no device
  matches, several match, or the final open or the claim of the single match fails),
  \<open>usbDeviceOpen\<close> returns one of these four errors and the session is the handshake
  read, the calls of the locator, the pause of one second and the close of the
  connection, in this order; nothing is written to the connection, so the acknowledgment
  is not sent; and the loop goes on to the next \<open>Accept\<close>.
\<close>

theorem acquisition_failure_is_local:
  assumes "take 4 (stream c) = FB01"
    and "list_all scannable (u_devices u)"
    and "acquisition_fails argSerial (u_devices u)"
  shows "\<exists>e1 c1 e2 err.
           netReadHandshake c = (e1, c1, Inr ()) \<and>
           usbDeviceOpen argSerial (u_devices u) = (e2, Inl err) \<and>
           err \<in> {NoDeviceFound, MultipleDevices, OpenDeviceFailed, ClaimInterfaceFailed} \<and>
           session mem argSerial c u = (e1 @ e2 @ [Sleep 1000, ConnClose], c1, u, Continue) \<and>
           filter is_conn_write (e1 @ e2 @ [Sleep 1000, ConnClose]) = [] \<and>
           c_out c1 = c_out c \<and>
           serve mem argSerial ((c, u) # rest) =
             (Accept # (e1 @ e2 @ [Sleep 1000, ConnClose]) @ fst (serve mem argSerial rest),
              snd (serve mem argSerial rest))"
proof -
  obtain e1 c1 where h: "netReadHandshake c = (e1, c1, Inr ())"
    and r: "list_all is_conn_read e1" and o: "c_out c1 = c_out c"
    using netReadHandshake_result [of c] assms(1) by auto
  obtain err where e: "snd (usbDeviceOpen argSerial (u_devices u)) = Inl err"
    and k: "err \<in> {NoDeviceFound, MultipleDevices, OpenDeviceFailed, ClaimInterfaceFailed}"
    using acquisition_fails_error [OF assms(2,3)] by blast
  obtain e2 where d: "usbDeviceOpen argSerial (u_devices u) = (e2, Inl err)"
    using e by (metis prod.collapse)
  have np: "\<not> is_panic err" using k by auto
  have s: "session mem argSerial c u = (e1 @ e2 @ [Sleep 1000, ConnClose], c1, u, Continue)"
    using h d np by (simp add: session_def)
  have "list_all is_usb e2"
    using usbDeviceOpen_events [of argSerial "u_devices u"] d by simp
  then have w: "filter is_conn_write (e1 @ e2 @ [Sleep 1000, ConnClose]) = []"
    using conn_read_not_write [OF r] usb_not_write by simp
  have "serve mem argSerial ((c, u) # rest) =
             (Accept # (e1 @ e2 @ [Sleep 1000, ConnClose]) @ fst (serve mem argSerial rest),
              snd (serve mem argSerial rest))"
    using s by (simp add: case_prod_unfold)
  then show ?thesis using h d k s w o by blast
qed

lemma netRead_first_event: "\<exists>rest. fst (netRead mem c) = ConnRead defaultBufSize # rest"
proof -
  have b: "fst (bufio_Read 8 [] c) = [ConnRead defaultBufSize]"
    by (simp add: bufio_Read_def defaultBufSize_def split: prod.splits option.splits)
  obtain e1 b1 r1 f1 d1 where br: "bufio_Read 8 [] c = (e1, (b1, r1), f1, d1)"
    by (metis prod_cases4 surj_pair)
  then have e1: "e1 = [ConnRead defaultBufSize]" using b by simp
  have "\<exists>rest. fst (ReadFull_loop 8 [] [] c) = ConnRead defaultBufSize # rest"
    using br e1 by (subst ReadFull_loop.simps) (simp split: prod.splits)
  then obtain rest where r: "fst (ReadFull 8 [] c) = ConnRead defaultBufSize # rest"
    by (auto simp: ReadFull_def)
  obtain x h err buf c1 where rf: "ReadFull 8 [] c = (x, (h, err), buf, c1)"
    by (metis prod_cases4 surj_pair)
  then have x: "x = ConnRead defaultBufSize # rest" using r by simp
  show ?thesis
    unfolding netRead_def rf x
    by (simp add: Let_def split: prod.splits)
qed

lemma relay_first_event: "\<exists>rest. fst (relay mem dev response c u) = ConnRead defaultBufSize # rest"
proof -
  obtain rest where "fst (netRead mem c) = ConnRead defaultBufSize # rest"
    using netRead_first_event by blast
  then show ?thesis
    by (subst relay.simps) (auto split: prod.splits sum.splits)
qed

text \<open>
  C10. When the handshake is read, the device is acquired and the write of the
  acknowledgment fails, \<open>netWriteHandshake\<close> returns the error and the session still
  goes on into the relay loop: the call that follows the failed write is the read of
  the connection with which \<open>netRead\<close> starts.
\<close>

theorem failed_acknowledgment_is_ignored:
  assumes "take 4 (stream c) = FB01"
    and "list_all scannable (u_devices u)"
    and "filter (candidate argSerial) (u_devices u) = [d]"
    and "finalOpen d = Some h" and "claimOk d"
    and "write_fails c"
  shows "\<exists>e1 c1 e2 rest.
           netReadHandshake c = (e1, c1, Inr ()) \<and>
           usbDeviceOpen argSerial (u_devices u) = (e2, Inr (opened d h)) \<and>
           snd (snd (netWriteHandshake c1)) \<and>
           fst (session mem argSerial c u) =
             e1 @ e2 @ [ConnWrite FB01, ConnRead defaultBufSize] @ rest"
proof -
  obtain e1 c1 where hs: "netReadHandshake c = (e1, c1, Inr ())" and w: "c_wr c1 = c_wr c"
    using netReadHandshake_result [of c] assms(1) by auto
  have "snd (usbDeviceOpen argSerial (u_devices u)) = Inr (opened d h)"
    using usbDeviceOpen_outcome [OF assms(2), of argSerial] assms(3,4,5) by simp
  then obtain e2 where o: "usbDeviceOpen argSerial (u_devices u) = (e2, Inr (opened d h))"
    by (metis prod.collapse)
  obtain c3 where a: "netWriteHandshake c1 = ([ConnWrite FB01], c3, True)"
    using assms(6) w
    by (auto simp: netWriteHandshake_def conn_Write_def write_fails_def
             split: list.splits option.splits)
  obtain rest where r:
    "fst (relay mem (opened d h) (replicate 256 0) c3 u) = ConnRead defaultBufSize # rest"
    using relay_first_event by blast
  obtain c4 u4 p where rr:
    "relay mem (opened d h) (replicate 256 0) c3 u = (ConnRead defaultBufSize # rest, c4, u4, p)"
    using r by (metis fst_conv prod_cases4)
  have "\<exists>tl. fst (session mem argSerial c u) =
          e1 @ e2 @ [ConnWrite FB01, ConnRead defaultBufSize] @ tl"
    using hs o a rr
    by (cases p; cases "usbDeviceClose (opened d h)") (auto simp: session_def split: option.splits)
  then show ?thesis using hs o a by auto
qed

lemma ReadFull_one_piece:
  assumes "c_in c = ch # rest" and "0 < m" and "m \<le> length ch"
    and "length ch \<le> defaultBufSize" and "m < defaultBufSize"
  shows "ReadFull m [] c = ([ConnRead defaultBufSize], (take m ch, False), drop m ch, c\<lparr>c_in := rest\<rparr>)"
proof -
  have b: "bufio_Read m [] c =
      ([ConnRead defaultBufSize], (take m ch, False), drop m ch, c\<lparr>c_in := rest\<rparr>)"
    using assms by (simp add: bufio_Read_def conn_Read_def)
  have l: "m - length (take m ch) = 0" using assms(3) by simp
  show ?thesis
    unfolding ReadFull_def
    by (subst ReadFull_loop.simps) (simp add: b l assms(2,3))
qed

lemma ReadFull_buffered:
  assumes "0 < m" and "m \<le> length buf"
  shows "ReadFull m buf c = ([], (take m buf, False), drop m buf, c)"
proof -
  have ne: "buf \<noteq> []" using assms by auto
  have b: "bufio_Read m buf c = ([], (take m buf, False), drop m buf, c)"
    using assms ne by (simp add: bufio_Read_def)
  have l: "m - length (take m buf) = 0" using assms(2) by simp
  show ?thesis
    unfolding ReadFull_def
    by (subst ReadFull_loop.simps) (simp add: b l assms)
qed

lemma ReadFull_at_end:
  assumes "c_in c = []" and "0 < m" and "m < defaultBufSize"
  shows "ReadFull m [] c = ([ConnRead defaultBufSize], ([], True), [], c)"
proof -
  have b: "bufio_Read m [] c = ([ConnRead defaultBufSize], ([], True), [], c)"
    using assms by (simp add: bufio_Read_def conn_Read_def)
  show ?thesis
    unfolding ReadFull_def
    by (subst ReadFull_loop.simps) (simp add: b assms(2))
qed

lemma netRead_at_end:
  assumes "c_in c = []"
  shows "netRead mem c = ([ConnRead defaultBufSize], c, Inl ReadHeaderFailed)"
  using ReadFull_at_end [OF assms, of 8]
  by (simp add: netRead_def defaultBufSize_def)

lemma netReadHandshake_one_piece:
  assumes "c_in c = (FB01 @ extra) # rest" and "length extra + 4 \<le> defaultBufSize"
  shows "netReadHandshake c = ([ConnRead defaultBufSize], c\<lparr>c_in := rest\<rparr>, Inr ())"
proof -
  have l: "length FB01 = 4" by (simp add: FB01_def)
  have "ReadFull 4 [] c =
      ([ConnRead defaultBufSize], (take 4 (FB01 @ extra), False), drop 4 (FB01 @ extra), c\<lparr>c_in := rest\<rparr>)"
    using assms l by (intro ReadFull_one_piece) (simp_all add: defaultBufSize_def)
  then show ?thesis using l by (simp add: netReadHandshake_def)
qed

lemma netReadHandshake_rejects_piece:
  assumes "c_in c = ch # rest" and "length ch = 4" and "ch \<noteq> FB01"
  shows "netReadHandshake c = ([ConnRead defaultBufSize], c\<lparr>c_in := rest\<rparr>, Inl ReadHandshakeFailed)"
proof -
  have "ReadFull 4 [] c =
      ([ConnRead defaultBufSize], (take 4 ch, False), drop 4 ch, c\<lparr>c_in := rest\<rparr>)"
    using assms by (intro ReadFull_one_piece) (simp_all add: defaultBufSize_def)
  then show ?thesis using assms by (simp add: netReadHandshake_def)
qed

lemma Uint64_small: "BigEndian_Uint64 [0, 0, 0, 0, 0, 0, 0, n] = ucast n"
  by (simp add: BigEndian_Uint64_def)

lemma netRead_two_frames:
  "netRead 1000 two_frames = ([ConnRead defaultBufSize], two_frames\<lparr>c_in := []\<rparr>, Inr [9])"
proof -
  have h: "ReadFull 8 [] two_frames =
      ([ConnRead defaultBufSize], ([0, 0, 0, 0, 0, 0, 0, 1], False), 9 # frame3,
       two_frames\<lparr>c_in := []\<rparr>)"
    using ReadFull_one_piece [of two_frames "[0, 0, 0, 0, 0, 0, 0, 1, 9] @ frame3" "[]" 8]
    by (simp add: two_frames_def frame3_def defaultBufSize_def)
  have d: "ReadFull (Suc 0) (9 # frame3) (two_frames\<lparr>c_in := []\<rparr>) =
      ([], ([9], False), frame3, two_frames\<lparr>c_in := []\<rparr>)"
    using ReadFull_buffered [of "Suc 0" "9 # frame3" "two_frames\<lparr>c_in := []\<rparr>"] by simp
  show ?thesis
    by (simp add: netRead_def h Uint64_small d)
qed

text \<open>
  C9. A connection that delivers the handshake and a frame in one piece: the reader of
  \<open>netReadHandshake\<close> takes the whole piece from the connection, returns 4 bytes of it
  and is dropped with the frame in its buffer, and the \<open>netRead\<close> that follows finds the
  stream at its end. Likewise with two frames in one piece: the first \<open>netRead\<close>
  returns the first frame and the second does not see the second frame.
\<close>

theorem fresh_reader_discards_buffered_bytes:
  "stream conn_joined = FB01 @ BigEndian_PutUint64 3 @ [1, 2, 3] \<and>
   netReadHandshake conn_joined = ([ConnRead defaultBufSize], conn_joined\<lparr>c_in := []\<rparr>, Inr ()) \<and>
   netRead 1000 (conn_joined\<lparr>c_in := []\<rparr>) =
     ([ConnRead defaultBufSize], conn_joined\<lparr>c_in := []\<rparr>, Inl ReadHeaderFailed) \<and>
   stream two_frames = (BigEndian_PutUint64 1 @ [9]) @ (BigEndian_PutUint64 3 @ [1, 2, 3]) \<and>
   netRead 1000 two_frames = ([ConnRead defaultBufSize], two_frames\<lparr>c_in := []\<rparr>, Inr [9]) \<and>
   netRead 1000 (two_frames\<lparr>c_in := []\<rparr>) =
     ([ConnRead defaultBufSize], two_frames\<lparr>c_in := []\<rparr>, Inl ReadHeaderFailed)"
proof -
  have p1: "BigEndian_PutUint64 1 = [0, 0, 0, 0, 0, 0, 0, 1]"
    by (simp add: BigEndian_PutUint64_def drop_bit_eq_div)
  have s1: "stream conn_joined = FB01 @ BigEndian_PutUint64 3 @ [1, 2, 3]"
    by (simp add: stream_def conn_joined_def frame3_def PutUint64_3)
  have h: "netReadHandshake conn_joined =
      ([ConnRead defaultBufSize], conn_joined\<lparr>c_in := []\<rparr>, Inr ())"
    using netReadHandshake_one_piece [of conn_joined frame3 "[]"]
    by (simp add: conn_joined_def frame3_def defaultBufSize_def)
  have r: "netRead 1000 (conn_joined\<lparr>c_in := []\<rparr>) =
     ([ConnRead defaultBufSize], conn_joined\<lparr>c_in := []\<rparr>, Inl ReadHeaderFailed)"
    using netRead_at_end [of "conn_joined\<lparr>c_in := []\<rparr>" 1000] by simp
  have s2: "stream two_frames = (BigEndian_PutUint64 1 @ [9]) @ (BigEndian_PutUint64 3 @ [1, 2, 3])"
    by (simp add: stream_def two_frames_def frame3_def PutUint64_3 p1)
  have r2: "netRead 1000 (two_frames\<lparr>c_in := []\<rparr>) =
     ([ConnRead defaultBufSize], two_frames\<lparr>c_in := []\<rparr>, Inl ReadHeaderFailed)"
    using netRead_at_end [of "two_frames\<lparr>c_in := []\<rparr>" 1000] by simp
  show ?thesis using s1 h r s2 netRead_two_frames r2 by simp
qed

text \<open>
  C4. A session whose handshake fails ends without closing the connection: its only
  call is the read of the connection. The session whose device acquisition fails, next
  to it, does close the connection.
\<close>

theorem failed_handshake_leaves_connection_open:
  "session 1000 [] conn_bad usb_fb =
     ([ConnRead defaultBufSize], conn_bad\<lparr>c_in := []\<rparr>, usb_fb, Continue) \<and>
   session 1000 [] conn_hs usb_none =
     ([ConnRead defaultBufSize, UsbDeviceList, Sleep 1000, ConnClose],
      conn_hs\<lparr>c_in := []\<rparr>, usb_none, Continue)"
proof -
  have b: "netReadHandshake conn_bad =
      ([ConnRead defaultBufSize], conn_bad\<lparr>c_in := []\<rparr>, Inl ReadHandshakeFailed)"
    using netReadHandshake_rejects_piece [of conn_bad "[0x58, 0x58, 0x58, 0x58]" "[]"]
    by (simp add: conn_bad_def FB01_def)
  have h: "netReadHandshake conn_hs = ([ConnRead defaultBufSize], conn_hs\<lparr>c_in := []\<rparr>, Inr ())"
    using netReadHandshake_one_piece [of conn_hs "[]" "[]"]
    by (simp add: conn_hs_def defaultBufSize_def)
  have o: "usbDeviceOpen [] (u_devices usb_none) = ([UsbDeviceList], Inl NoDeviceFound)"
    by (simp add: usbDeviceOpen_def scan_init_def usb_none_def)
  show ?thesis by (simp add: session_def b h o)
qed

lemma conn_read_reads_into: "list_all is_conn_read evs \<Longrightarrow> list_all (reads_into a n) evs"
  by (induction evs) (auto elim: is_conn_read.elims)

lemma netRead_events: "list_all is_conn_read (fst (netRead mem c))"
proof -
  obtain e1 h r1 b1 c1 where h: "ReadFull_loop 8 [] [] c = (e1, (h, r1), b1, c1)"
    by (metis prod_cases4 surj_pair)
  obtain e2 d r2 b2 c2 where
    d: "ReadFull_loop (unat (BigEndian_Uint64 h)) [] b1 c1 = (e2, (d, r2), b2, c2)"
    by (metis prod_cases4 surj_pair)
  show ?thesis
    using h d ReadFull_loop_events [OF h] ReadFull_loop_events [OF d]
    by (simp add: netRead_def ReadFull_def Let_def)
qed

lemma usbWrite_loop_reads_into:
  "usbWrite_loop k h ep data off u = (evs, u', r) \<Longrightarrow> a \<noteq> EndpointAddress ep \<Longrightarrow>
   list_all (reads_into a n) evs"
proof (induction k arbitrary: off u evs u' r)
  case 0
  then show ?case by simp
next
  case (Suc k)
  show ?case
    using Suc.prems Suc.IH
    by (auto simp: Let_def split: option.splits prod.splits if_splits)
qed

lemma usbWrite_reads_into:
  assumes "endpointOut dev = Some epo" and "a \<noteq> EndpointAddress epo"
  shows "list_all (reads_into a n) (fst (usbWrite dev data u))"
proof (cases "int (unat (MaxPacketSize epo)) = 0")
  case True
  then show ?thesis using assms(1) by (simp add: usbWrite_def Let_def)
next
  case False
  obtain evs u' r where
    l: "usbWrite_loop (nat (go_div (int (length data) + int (unat (MaxPacketSize epo)) - 1)
            (int (unat (MaxPacketSize epo))))) (handle dev) epo data 0 u = (evs, u', r)"
    by (metis prod_cases3)
  have "list_all (reads_into a n) evs"
    using l assms(2) by (rule usbWrite_loop_reads_into)
  then show ?thesis
    using assms(1) False l by (simp add: usbWrite_def Let_def)
qed

lemma usbRead_once:
  assumes "endpointIn dev = Some epi" and "handle dev = Some h"
  shows "usbRead dev buf u =
           ([UsbBulk h (EndpointAddress epi) buf (length buf) usbTimeout],
            u\<lparr>u_bulk := drop 1 (u_bulk u)\<rparr>,
            take (length buf) (fst (next_answer u) @ drop (length (fst (next_answer u))) buf),
            if snd (next_answer u) then Inl UsbReadFailed
            else Inr (length (fst (next_answer u))))"
proof (cases "u_bulk u")
  case Nil
  then have "u\<lparr>u_bulk := []\<rparr> = u" by (cases u) simp
  then show ?thesis
    using assms Nil by (simp add: usbRead_def BulkTransfer_call_def next_answer_def)
next
  case (Cons a as)
  then show ?thesis
    using assms by (simp add: usbRead_def BulkTransfer_call_def next_answer_def Let_def)
qed

lemma usbRead_reads_into:
  assumes "endpointIn dev = Some epi"
  shows "list_all (reads_into (EndpointAddress epi) (length buf)) (fst (usbRead dev buf u))"
    and "length (fst (snd (snd (usbRead dev buf u)))) = length buf"
  using assms
  by (auto simp: usbRead_def Let_def split: option.splits prod.splits)

lemma netWrite_reads_into: "list_all (reads_into a n) (fst (netWrite c data))"
  by (auto simp: netWrite_def Let_def split: prod.splits)

lemma relay_reads_into:
  assumes "endpointIn dev = Some epi" and "endpointOut dev = Some epo"
    and "EndpointAddress epi \<noteq> EndpointAddress epo"
  shows "length response = n \<Longrightarrow>
         list_all (reads_into (EndpointAddress epi) n) (fst (relay mem dev response c u))"
proof (induction "pending c" arbitrary: response c u rule: less_induct)
  case less
  let ?P = "list_all (reads_into (EndpointAddress epi) n)"
  obtain e1 c1 r1 where nr: "netRead mem c = (e1, c1, r1)" by (metis prod_cases3)
  have E1: "?P e1"
    using netRead_events [of mem c] nr by (simp add: conn_read_reads_into)
  show ?case
  proof (cases r1)
    case (Inl err)
    then show ?thesis using nr E1 by (subst relay.simps) simp
  next
    case (Inr data)
    obtain e2 u2 r2 where uw: "usbWrite dev data u = (e2, u2, r2)" by (metis prod_cases3)
    have E2: "?P e2"
      using usbWrite_reads_into [OF assms(2,3), of n data u] uw by simp
    show ?thesis
    proof (cases r2)
      case (Inl err)
      then show ?thesis using nr Inr uw E1 E2 by (subst relay.simps) simp
    next
      case R2: (Inr x)
      obtain e3 u3 resp r3 where ur: "usbRead dev response u2 = (e3, u3, resp, r3)"
        by (metis prod_cases4)
      have E3: "?P e3" and L: "length resp = n"
        using usbRead_reads_into [OF assms(1), of response u2] ur less.prems by simp_all
      show ?thesis
      proof (cases r3)
        case (Inl err)
        then show ?thesis using nr Inr uw R2 ur E1 E2 E3 by (subst relay.simps) simp
      next
        case R3: (Inr k)
        obtain e4 c4 r4 where nw: "netWrite c1 (take k resp) = (e4, c4, r4)"
          by (metis prod_cases3)
        have E4: "?P e4"
          using netWrite_reads_into [of "EndpointAddress epi" n c1 "take k resp"] nw by simp
        have "pending c4 < pending c"
          using netRead_pending [of mem c e1 c1 data] netWrite_pending [OF nw] nr Inr by simp
        then have IH: "?P (fst (relay mem dev resp c4 u3))"
          using less.hyps [of c4 resp u3] L by simp
        show ?thesis
          using nr Inr uw R2 ur R3 nw E1 E2 E3 E4 IH
          by (subst relay.simps) (auto split: sum.splits prod.splits)
      qed
    qed
  qed
qed

text \<open>
  C8. \<open>usbRead\<close> makes exactly one bulk transfer on the in endpoint, into the buffer it
  is given and for the length of this buffer, takes one answer of the device, and
  returns the count of this answer whatever its length, shorter than the buffer or
  not. In the relay loop, started as \<open>main\<close> starts it with a buffer of 256 bytes,
  every transfer on the in endpoint is for 256 bytes into a buffer of 256 bytes (the
  two endpoints having different addresses).
\<close>

theorem usbRead_single_transfer:
  assumes "endpointIn dev = Some epi" and "handle dev = Some h"
  shows "usbRead dev buf u =
           ([UsbBulk h (EndpointAddress epi) buf (length buf) usbTimeout],
            u\<lparr>u_bulk := drop 1 (u_bulk u)\<rparr>,
            take (length buf) (fst (next_answer u) @ drop (length (fst (next_answer u))) buf),
            if snd (next_answer u) then Inl UsbReadFailed
            else Inr (length (fst (next_answer u))))
         \<and> (case endpointOut dev of
               None \<Rightarrow> True
             | Some epo \<Rightarrow>
                 if EndpointAddress epi = EndpointAddress epo then True
                 else list_all (reads_into (EndpointAddress epi) 256)
                        (fst (relay mem dev (replicate 256 0) c u')))"
proof -
  have "list_all (reads_into (EndpointAddress epi) 256) (fst (relay mem dev (replicate 256 0) c u'))"
    if "endpointOut dev = Some epo" "EndpointAddress epi \<noteq> EndpointAddress epo" for epo
    using relay_reads_into [OF assms(1) that, of "replicate 256 0" 256 mem c u'] by simp
  then show ?thesis
    using usbRead_once [OF assms, of buf u] by (simp split: option.splits)
qed

theorem usbRead_single_transfer_witness:
  "endpointIn fb_opened = Some ep1 \<and> handle fb_opened = Some 11 \<and>
   usbRead fb_opened [0, 0, 0, 0] usb_two =
     ([UsbBulk 11 0x81 [0, 0, 0, 0] 4 5000], \<lparr>u_devices = [], u_bulk = [([7], False)]\<rparr>,
      [0x4f, 0x4b, 0, 0], Inr 2) \<and>
   list_all (reads_into 0x81 256) (fst (relay 1000 fb_opened (replicate 256 0) conn_noack usb_fb))"
proof -
  have a: "endpointIn fb_opened = Some ep1" and b: "handle fb_opened = Some 11"
    by (simp_all add: fb_opened_def)
  have o: "endpointOut fb_opened = Some ep2" by (simp add: fb_opened_def)
  have ne: "(0x81 :: byte) \<noteq> EndpointAddress ep2" by (simp add: ep2_def)
  have ad: "EndpointAddress ep1 = 0x81" by (simp add: ep1_def)
  note t = usbRead_single_transfer [OF a b, where buf = "[0, 0, 0, 0]" and u = usb_two
      and mem = 1000 and c = conn_noack and u' = usb_fb]
  have r: "list_all (reads_into 0x81 256) (fst (relay 1000 fb_opened (replicate 256 0) conn_noack usb_fb))"
    using t [THEN conjunct2] by (simp only: o ad option.case ne if_False)
  have v: "usbRead fb_opened [0, 0, 0, 0] usb_two =
     ([UsbBulk 11 0x81 [0, 0, 0, 0] 4 5000], \<lparr>u_devices = [], u_bulk = [([7], False)]\<rparr>,
      [0x4f, 0x4b, 0, 0], Inr 2)"
    using t [THEN conjunct1] by (simp add: ad next_answer_def usb_two_def usbTimeout_def)
  show ?thesis using a b r v by simp
qed


theorem acquisition_failure_is_local_witness:
  "take 4 (stream conn_hs) = FB01 \<and> list_all scannable (u_devices usb_none) \<and>
   acquisition_fails [] (u_devices usb_none) \<and>
   (\<exists>e1 c1 e2 err.
       netReadHandshake conn_hs = (e1, c1, Inr ()) \<and>
       usbDeviceOpen [] (u_devices usb_none) = (e2, Inl err) \<and>
       err \<in> {NoDeviceFound, MultipleDevices, OpenDeviceFailed, ClaimInterfaceFailed} \<and>
       session 1000 [] conn_hs usb_none = (e1 @ e2 @ [Sleep 1000, ConnClose], c1, usb_none, Continue) \<and>
       filter is_conn_write (e1 @ e2 @ [Sleep 1000, ConnClose]) = [] \<and>
       c_out c1 = c_out conn_hs \<and>
       serve 1000 [] [(conn_hs, usb_none), (conn_bad, usb_fb)] =
         (Accept # (e1 @ e2 @ [Sleep 1000, ConnClose]) @ fst (serve 1000 [] [(conn_bad, usb_fb)]),
          snd (serve 1000 [] [(conn_bad, usb_fb)])))"
proof -
  have a: "take 4 (stream conn_hs) = FB01"
    by (simp add: stream_def conn_hs_def FB01_def)
  have b: "list_all scannable (u_devices usb_none)" by (simp add: usb_none_def)
  have c: "acquisition_fails [] (u_devices usb_none)"
    by (simp add: usb_none_def acquisition_fails_def)
  from acquisition_failure_is_local [OF a b c, of 1000 "[(conn_bad, usb_fb)]"] a b c
  show ?thesis by (intro conjI)
qed

theorem failed_acknowledgment_is_ignored_witness:
  "take 4 (stream conn_noack) = FB01 \<and> list_all scannable (u_devices usb_fb) \<and>
   filter (candidate []) (u_devices usb_fb) = [fb_device] \<and>
   finalOpen fb_device = Some 11 \<and> claimOk fb_device \<and> write_fails conn_noack \<and>
   (\<exists>e1 c1 e2 rest.
       netReadHandshake conn_noack = (e1, c1, Inr ()) \<and>
       usbDeviceOpen [] (u_devices usb_fb) = (e2, Inr (opened fb_device 11)) \<and>
       snd (snd (netWriteHandshake c1)) \<and>
       fst (session 1000 [] conn_noack usb_fb) =
         e1 @ e2 @ [ConnWrite FB01, ConnRead defaultBufSize] @ rest)"
proof -
  have a: "take 4 (stream conn_noack) = FB01"
    by (simp add: stream_def conn_noack_def FB01_def)
  have b: "list_all scannable (u_devices usb_fb)"
    by (simp add: usb_fb_def sample_defs locator_defs)
  have c: "filter (candidate []) (u_devices usb_fb) = [fb_device]"
    by (simp add: usb_fb_def sample_defs locator_defs)
  have d: "finalOpen fb_device = Some 11" and e: "claimOk fb_device"
    by (simp_all add: fb_device_def)
  have f: "write_fails conn_noack" by (simp add: write_fails_def conn_noack_def)
  from failed_acknowledgment_is_ignored [OF a b c d e f, of 1000] a b c d e f
  show ?thesis by (intro conjI)
qed

theorem fresh_reader_discards_buffered_bytes_witness:
  "\<exists>c evs c'. netReadHandshake c = (evs, c', Inr ()) \<and>
      drop 4 (stream c) = BigEndian_PutUint64 3 @ [1, 2, 3] \<and>
      snd (snd (netRead 1000 c')) = Inl ReadHeaderFailed"
proof -
  have l: "length FB01 = 4" by (simp add: FB01_def)
  note t = fresh_reader_discards_buffered_bytes
  have s: "stream conn_joined = FB01 @ BigEndian_PutUint64 3 @ [1, 2, 3]"
    using t by (rule conjunct1)
  have h: "netReadHandshake conn_joined =
      ([ConnRead defaultBufSize], conn_joined\<lparr>c_in := []\<rparr>, Inr ())"
    using t by blast
  have r: "netRead 1000 (conn_joined\<lparr>c_in := []\<rparr>) =
     ([ConnRead defaultBufSize], conn_joined\<lparr>c_in := []\<rparr>, Inl ReadHeaderFailed)"
    using t by blast
  have "netReadHandshake conn_joined =
          ([ConnRead defaultBufSize], conn_joined\<lparr>c_in := []\<rparr>, Inr ()) \<and>
        drop 4 (stream conn_joined) = BigEndian_PutUint64 3 @ [1, 2, 3] \<and>
        snd (snd (netRead 1000 (conn_joined\<lparr>c_in := []\<rparr>))) = Inl ReadHeaderFailed"
    using s h r l by simp
  then show ?thesis by blast
qed

end
